theory Spec2Isabelle
  imports Main
begin

section \<open>The consumer registry of pkg/consumer/consumer.go\<close>

text \<open>
  The development embeds \<^verbatim>\<open>pkg/consumer/consumer.go\<close>: the \<^verbatim>\<open>Consumer\<close> struct with
  \<^verbatim>\<open>Marshal\<close>, \<^verbatim>\<open>Unmarshal\<close> and \<^verbatim>\<open>InitConfigs\<close>, the package variables
  \<^verbatim>\<open>resourceIndex\<close> and \<^verbatim>\<open>scopeIndex\<close>, \<^verbatim>\<open>updateConsumers\<close> and \<^verbatim>\<open>LookupConsumer\<close>.

  Conventions.
  \<^item> A Go map is the partial function it denotes. A map that may be \<^verbatim>\<open>nil\<close> is an
    \<open>option\<close> of one (\<open>None\<close> is \<^verbatim>\<open>nil\<close>).
  \<^item> Go leaves the order of a \<^verbatim>\<open>range\<close> over a map to the runtime. Every \<^verbatim>\<open>range\<close> of
    the source takes the order of its keys as an argument (the record \<open>order\<close>);
    theorems quantify over it.
  \<^item> A \<^verbatim>\<open>*Consumer\<close> is an address into an explicit heap; the variable \<^verbatim>\<open>c\<close> of a
    loop iteration gets the next unused address where the source stores \<^verbatim>\<open>&c\<close>.
  \<^item> \<^verbatim>\<open>logger\<close> is a list of entries in the state, appended to.
  \<^item> What lies outside the file (\<^verbatim>\<open>encoding/json\<close>'s text layer, \<^verbatim>\<open>protojson\<close>, the
    plugin registry and the plugins' own methods, \<^verbatim>\<open>model.FilterConfig\<close>) is a field of
    the record \<open>env\<close>, a parameter of every function that calls it.
\<close>

subsection \<open>Go maps and range\<close>

definition entries :: "(string \<rightharpoonup> 'v) option \<Rightarrow> (string \<rightharpoonup> 'v)" where
  \<comment> \<open>Reading a map that may be nil: a nil map reads as the empty map.\<close>
  "entries m = (case m of None \<Rightarrow> Map.empty | Some f \<Rightarrow> f)"

definition range_go :: "string list \<Rightarrow> (string \<rightharpoonup> 'v) \<Rightarrow> (string \<times> 'v) list" where
  \<comment> \<open>\<^verbatim>\<open>for k, v := range m\<close>, the runtime visiting the keys in the order \<open>ks\<close>.\<close>
  "range_go ks m = List.map_filter (\<lambda>k. map_option (Pair k) (m k)) ks"

definition enumerates :: "string list \<Rightarrow> (string \<rightharpoonup> 'v) \<Rightarrow> bool" where
  \<comment> \<open>\<open>ks\<close> is an order in which the runtime can visit \<open>m\<close>: every key, once.\<close>
  "enumerates ks m \<longleftrightarrow> distinct ks \<and> set ks = dom m"

subsection \<open>Errors and log entries\<close>

datatype error =
    SyntaxError
      \<comment> \<open>\<^verbatim>\<open>json.Unmarshal\<close>: the text is not a JSON document\<close>
  | UnmarshalTypeError string
      \<comment> \<open>\<^verbatim>\<open>json.Unmarshal\<close>: a JSON value that does not fit the named Go field\<close>
  | FilterConfigError string
      \<comment> \<open>\<^verbatim>\<open>encoding/json\<close> refusing a \<^verbatim>\<open>model.FilterConfig\<close>, with its message\<close>
  | NotForConsumer string
      \<comment> \<open>\<^verbatim>\<open>"plugin %s is not for consumer"\<close>\<close>
  | FailedToUnmarshalConfig string string
      \<comment> \<open>\<^verbatim>\<open>"failed to unmarshal consumer config for plugin %s: %w"\<close>\<close>
  | FailedToValidateConfig string string
      \<comment> \<open>\<^verbatim>\<open>"failed to validate consumer config for plugin %s: %w"\<close>\<close>
  | PluginNotFound string
      \<comment> \<open>\<^verbatim>\<open>"plugin %s not found"\<close>\<close>
  | DuringParsingPlugin string string
      \<comment> \<open>\<^verbatim>\<open>"%w during parsing plugin %s in consumer"\<close>\<close>

datatype log_entry =
    InfoInitConfigs string string
      \<comment> \<open>\<^verbatim>\<open>"init configs for consumer"\<close>: name, namespace\<close>
  | ErrorFailedToUnmarshal error string string string
      \<comment> \<open>\<^verbatim>\<open>"failed to unmarshal"\<close>: err, consumer, name, namespace\<close>
  | ErrorFailedToInit error string string string
      \<comment> \<open>\<^verbatim>\<open>"failed to init"\<close>: err, consumer, name, namespace\<close>
  | ErrorDuplicateIndex string string string string string
      \<comment> \<open>err \<^verbatim>\<open>"duplicate index %s"\<close> (its argument), the two arguments of
         \<^verbatim>\<open>"ignore consumer %s for plugin %s"\<close> in the order the source passes them,
         namespace, existing consumer\<close>

datatype 'a result = Ok 'a | Err error | NilPointerPanic

datatype 'a outcome = Normal 'a | Panic 'a

fun final :: "'a outcome \<Rightarrow> 'a" where
  "final (Normal s) = s"
| "final (Panic s) = s"

subsection \<open>The structpb snapshot\<close>

datatype pvalue =
    StringValue string
  | StructValue "string \<Rightarrow> pvalue option"
  | OtherValue
      \<comment> \<open>null, number, bool and list values: every getter used here returns its zero\<close>

definition GetStructFields :: "pvalue \<Rightarrow> (string \<rightharpoonup> pvalue)" where
  \<comment> \<open>\<^verbatim>\<open>v.GetStructValue().GetFields()\<close>: nil-safe getters, an empty result for a
     value that is no struct\<close>
  "GetStructFields v = (case v of StructValue fs \<Rightarrow> fs | _ \<Rightarrow> Map.empty)"

definition GetStringValue :: "pvalue option \<Rightarrow> string" where
  \<comment> \<open>\<^verbatim>\<open>fields[k].GetStringValue()\<close>: the empty string for a missing key or a value
     that is no string\<close>
  "GetStringValue v = (case v of Some (StringValue s) \<Rightarrow> s | _ \<Rightarrow> [])"

subsection \<open>The Consumer struct and the environment\<close>

type_synonym addr = nat

record ('pc, 'cf) ParsedFilterConfig =
  Name :: string
  ParsedConfig :: 'pc
  ConfigFactory :: 'cf

record ('cfg, 'fc, 'pc, 'cf) Consumer =
  ConsumerName :: string
  Auth :: "(string \<rightharpoonup> string) option"
  Filters :: "(string \<rightharpoonup> 'fc option) option"
    \<comment> \<open>\<^verbatim>\<open>map[string]*model.FilterConfig\<close>: a value \<open>None\<close> is a nil pointer\<close>
  namespace :: string
  resourceVersion :: string
  ConsumerConfigs :: "(string \<rightharpoonup> 'cfg) option"
  FilterConfigs :: "('pc, 'cf) ParsedFilterConfig list option"

definition zeroConsumer :: "('cfg, 'fc, 'pc, 'cf) Consumer" where
  \<comment> \<open>\<^verbatim>\<open>var c Consumer\<close>\<close>
  "zeroConsumer = \<lparr>ConsumerName = [], Auth = None, Filters = None, namespace = [],
     resourceVersion = [], ConsumerConfigs = None, FilterConfigs = None\<rparr>"

datatype json =
    JNull
  | JBool bool
  | JNumber string
  | JString string
  | JArray "json list"
  | JObject "(string \<times> json) list"

datatype 'cfg http_plugin =
    PlainPlugin
      \<comment> \<open>a registered plugin that does not implement \<^verbatim>\<open>plugins.ConsumerPlugin\<close>\<close>
  | ConsumerPlugin (ConsumerConfig: 'cfg)
      \<comment> \<open>one that does; \<^verbatim>\<open>p.ConsumerConfig()\<close> is its empty config\<close>

record ('fc, 'pc, 'cf) FilterConfigFactoryAndParser =
  Parse :: "'fc \<Rightarrow> string + 'pc"
    \<comment> \<open>\<^verbatim>\<open>p.ConfigParser.Parse(data.Config, nil)\<close> as a function of \<^verbatim>\<open>*data\<close>\<close>
  Factory :: 'cf

record ('cfg, 'fc, 'pc, 'cf) env =
  jsonParse :: "string \<Rightarrow> json option"
    \<comment> \<open>\<^verbatim>\<open>encoding/json\<close>, text to document; \<open>None\<close> for a syntax error\<close>
  jsonRender :: "json \<Rightarrow> string"
    \<comment> \<open>\<^verbatim>\<open>encoding/json\<close>, document to text\<close>
  jsonFoldName :: "string \<Rightarrow> string"
    \<comment> \<open>\<^verbatim>\<open>encoding/json\<close>'s case folding of an object key\<close>
  marshalFilterConfig :: "'fc \<Rightarrow> string + json"
  unmarshalFilterConfig :: "json \<Rightarrow> string + 'fc"
    \<comment> \<open>\<^verbatim>\<open>encoding/json\<close> on a \<^verbatim>\<open>model.FilterConfig\<close>, declared outside the file\<close>
  LoadHttpPlugin :: "string \<Rightarrow> 'cfg http_plugin option"
    \<comment> \<open>\<open>None\<close> is the nil interface: no plugin of that name\<close>
  LoadHttpFilterConfigFactoryAndParser ::
    "string \<Rightarrow> ('fc, 'pc, 'cf) FilterConfigFactoryAndParser option"
  protojsonUnmarshal :: "string \<Rightarrow> 'cfg \<Rightarrow> string + 'cfg"
  Validate :: "'cfg \<Rightarrow> string option"
  Index :: "'cfg \<Rightarrow> string"

subsection \<open>Marshal and Unmarshal\<close>

text \<open>
  \<^verbatim>\<open>json.Marshal(c)\<close> writes the exported fields that carry a key, in the order of the
  struct: \<^verbatim>\<open>name\<close>, \<^verbatim>\<open>auth\<close>, \<^verbatim>\<open>filters\<close>. The unexported \<^verbatim>\<open>namespace\<close> and
  \<^verbatim>\<open>resourceVersion\<close> and the two fields tagged \<^verbatim>\<open>json:"-"\<close> are skipped. A nil map
  and a nil pointer are written as null. The keys of a map are written in the order
  \<open>ks\<close> (sorted, in Go).
\<close>

definition marshalAuth :: "string list \<Rightarrow> (string \<rightharpoonup> string) option \<Rightarrow> json" where
  "marshalAuth ks a =
     (case a of None \<Rightarrow> JNull
      | Some m \<Rightarrow> JObject (map (\<lambda>(k, s). (k, JString s)) (range_go ks m)))"

fun marshalFilterEntries ::
  "('cfg, 'fc, 'pc, 'cf) env \<Rightarrow> (string \<times> 'fc option) list \<Rightarrow> error + (string \<times> json) list" where
  "marshalFilterEntries E [] = Inr []"
| "marshalFilterEntries E ((k, None) # rest) =
     (case marshalFilterEntries E rest of Inl e \<Rightarrow> Inl e | Inr js \<Rightarrow> Inr ((k, JNull) # js))"
| "marshalFilterEntries E ((k, Some f) # rest) =
     (case marshalFilterConfig E f of
        Inl msg \<Rightarrow> Inl (FilterConfigError msg)
      | Inr j \<Rightarrow>
          (case marshalFilterEntries E rest of Inl e \<Rightarrow> Inl e | Inr js \<Rightarrow> Inr ((k, j) # js)))"

definition marshalFilters ::
  "('cfg, 'fc, 'pc, 'cf) env \<Rightarrow> string list \<Rightarrow> (string \<rightharpoonup> 'fc option) option \<Rightarrow> error + json" where
  "marshalFilters E ks f =
     (case f of None \<Rightarrow> Inr JNull
      | Some m \<Rightarrow>
          (case marshalFilterEntries E (range_go ks m) of
             Inl e \<Rightarrow> Inl e | Inr js \<Rightarrow> Inr (JObject js)))"

definition jsonMarshal ::
  "('cfg, 'fc, 'pc, 'cf) env \<Rightarrow> string list \<Rightarrow> string list \<Rightarrow> ('cfg, 'fc, 'pc, 'cf) Consumer
     \<Rightarrow> error + json" where
  "jsonMarshal E aks fks c =
     (case marshalFilters E fks (Filters c) of
        Inl e \<Rightarrow> Inl e
      | Inr fj \<Rightarrow>
          Inr (JObject [(''name'', JString (ConsumerName c)),
                        (''auth'', marshalAuth aks (Auth c)),
                        (''filters'', fj)]))"

definition Marshal ::
  "('cfg, 'fc, 'pc, 'cf) env \<Rightarrow> string list \<Rightarrow> string list \<Rightarrow> ('cfg, 'fc, 'pc, 'cf) Consumer
     \<Rightarrow> string" where
  \<comment> \<open>\<^verbatim>\<open>b, _ := json.Marshal(c); return string(b)\<close>: the error is dropped, and the
     text of a nil \<^verbatim>\<open>b\<close> is empty\<close>
  "Marshal E aks fks c =
     (case jsonMarshal E aks fks c of Inl e \<Rightarrow> [] | Inr j \<Rightarrow> jsonRender E j)"

text \<open>
  \<^verbatim>\<open>json.Unmarshal([]byte(s), c)\<close>. A syntax error is found before the receiver is
  touched. The document null leaves the receiver as it is; an object is read member by
  member, each key resolved to the field with that key, or else to the field whose key
  folds to the same name, or else skipped. Null leaves a string as it is and sets a map
  to nil; an object is read into the map there is (a new one if nil); null for a string
  element stores the empty string and null for a pointer element stores nil. Where Go
  goes on after a value of the wrong kind and reports the first such error at the end,
  the model returns that error at once: the receiver's contents after a failed call are
  not modelled (\<^verbatim>\<open>updateConsumers\<close> drops the receiver).
\<close>

datatype field = FieldName | FieldAuth | FieldFilters

definition fieldOf :: "('cfg, 'fc, 'pc, 'cf) env \<Rightarrow> string \<Rightarrow> field option" where
  "fieldOf E k =
     (if k = ''name'' then Some FieldName
      else if k = ''auth'' then Some FieldAuth
      else if k = ''filters'' then Some FieldFilters
      else if jsonFoldName E k = jsonFoldName E ''name'' then Some FieldName
      else if jsonFoldName E k = jsonFoldName E ''auth'' then Some FieldAuth
      else if jsonFoldName E k = jsonFoldName E ''filters'' then Some FieldFilters
      else None)"

fun unmarshalAuth :: "(string \<times> json) list \<Rightarrow> (string \<rightharpoonup> string) \<Rightarrow> error + (string \<rightharpoonup> string)" where
  "unmarshalAuth [] m = Inr m"
| "unmarshalAuth ((k, j) # rest) m =
     (case j of
        JString s \<Rightarrow> unmarshalAuth rest (m(k \<mapsto> s))
      | JNull \<Rightarrow> unmarshalAuth rest (m(k \<mapsto> []))
      | _ \<Rightarrow> Inl (UnmarshalTypeError ''auth''))"

fun unmarshalFilters ::
  "('cfg, 'fc, 'pc, 'cf) env \<Rightarrow> (string \<times> json) list \<Rightarrow> (string \<rightharpoonup> 'fc option)
     \<Rightarrow> error + (string \<rightharpoonup> 'fc option)" where
  "unmarshalFilters E [] m = Inr m"
| "unmarshalFilters E ((k, j) # rest) m =
     (case j of
        JNull \<Rightarrow> unmarshalFilters E rest (m(k \<mapsto> None))
      | _ \<Rightarrow>
          (case unmarshalFilterConfig E j of
             Inl msg \<Rightarrow> Inl (FilterConfigError msg)
           | Inr f \<Rightarrow> unmarshalFilters E rest (m(k \<mapsto> Some f))))"

definition unmarshalMember ::
  "('cfg, 'fc, 'pc, 'cf) env \<Rightarrow> string \<times> json \<Rightarrow> ('cfg, 'fc, 'pc, 'cf) Consumer
     \<Rightarrow> error + ('cfg, 'fc, 'pc, 'cf) Consumer" where
  "unmarshalMember E kv c =
     (case fieldOf E (fst kv) of
        None \<Rightarrow> Inr c
      | Some FieldName \<Rightarrow>
          (case snd kv of
             JNull \<Rightarrow> Inr c
           | JString s \<Rightarrow> Inr (c\<lparr>ConsumerName := s\<rparr>)
           | _ \<Rightarrow> Inl (UnmarshalTypeError ''name''))
      | Some FieldAuth \<Rightarrow>
          (case snd kv of
             JNull \<Rightarrow> Inr (c\<lparr>Auth := None\<rparr>)
           | JObject ms \<Rightarrow>
               (case unmarshalAuth ms (entries (Auth c)) of
                  Inl e \<Rightarrow> Inl e | Inr m \<Rightarrow> Inr (c\<lparr>Auth := Some m\<rparr>))
           | _ \<Rightarrow> Inl (UnmarshalTypeError ''auth''))
      | Some FieldFilters \<Rightarrow>
          (case snd kv of
             JNull \<Rightarrow> Inr (c\<lparr>Filters := None\<rparr>)
           | JObject ms \<Rightarrow>
               (case unmarshalFilters E ms (entries (Filters c)) of
                  Inl e \<Rightarrow> Inl e | Inr m \<Rightarrow> Inr (c\<lparr>Filters := Some m\<rparr>))
           | _ \<Rightarrow> Inl (UnmarshalTypeError ''filters'')))"

fun unmarshalMembers ::
  "('cfg, 'fc, 'pc, 'cf) env \<Rightarrow> (string \<times> json) list \<Rightarrow> ('cfg, 'fc, 'pc, 'cf) Consumer
     \<Rightarrow> error + ('cfg, 'fc, 'pc, 'cf) Consumer" where
  "unmarshalMembers E [] c = Inr c"
| "unmarshalMembers E (kv # rest) c =
     (case unmarshalMember E kv c of Inl e \<Rightarrow> Inl e | Inr c' \<Rightarrow> unmarshalMembers E rest c')"

definition jsonUnmarshal ::
  "('cfg, 'fc, 'pc, 'cf) env \<Rightarrow> json \<Rightarrow> ('cfg, 'fc, 'pc, 'cf) Consumer
     \<Rightarrow> error + ('cfg, 'fc, 'pc, 'cf) Consumer" where
  "jsonUnmarshal E j c =
     (case j of
        JNull \<Rightarrow> Inr c
      | JObject ms \<Rightarrow> unmarshalMembers E ms c
      | _ \<Rightarrow> Inl (UnmarshalTypeError ''Consumer''))"

definition Unmarshal ::
  "('cfg, 'fc, 'pc, 'cf) env \<Rightarrow> string \<Rightarrow> ('cfg, 'fc, 'pc, 'cf) Consumer
     \<Rightarrow> error + ('cfg, 'fc, 'pc, 'cf) Consumer" where
  "Unmarshal E s c =
     (case jsonParse E s of None \<Rightarrow> Inl SyntaxError | Some j \<Rightarrow> jsonUnmarshal E j c)"

subsection \<open>InitConfigs\<close>

fun initAuth ::
  "('cfg, 'fc, 'pc, 'cf) env \<Rightarrow> (string \<times> string) list \<Rightarrow> (string \<rightharpoonup> 'cfg)
     \<Rightarrow> error + (string \<rightharpoonup> 'cfg)" where
  \<comment> \<open>\<^verbatim>\<open>for name, data := range c.Auth\<close>\<close>
  "initAuth E [] cc = Inr cc"
| "initAuth E ((name, data) # rest) cc =
     (case LoadHttpPlugin E name of
        Some (ConsumerPlugin conf) \<Rightarrow>
          (case protojsonUnmarshal E data conf of
             Inl err \<Rightarrow> Inl (FailedToUnmarshalConfig name err)
           | Inr conf' \<Rightarrow>
               (case Validate E conf' of
                  Some err \<Rightarrow> Inl (FailedToValidateConfig name err)
                | None \<Rightarrow> initAuth E rest (cc(name \<mapsto> conf'))))
      | _ \<Rightarrow> Inl (NotForConsumer name))"

fun initFilters ::
  "('cfg, 'fc, 'pc, 'cf) env \<Rightarrow> (string \<times> 'fc option) list
     \<Rightarrow> ('pc, 'cf) ParsedFilterConfig list \<Rightarrow> ('pc, 'cf) ParsedFilterConfig list result" where
  \<comment> \<open>\<^verbatim>\<open>for name, data := range c.Filters\<close>; \<^verbatim>\<open>data.Config\<close> on a nil \<^verbatim>\<open>data\<close> is a
     nil pointer dereference\<close>
  "initFilters E [] fcs = Ok fcs"
| "initFilters E ((name, data) # rest) fcs =
     (case LoadHttpFilterConfigFactoryAndParser E name of
        None \<Rightarrow> Err (PluginNotFound name)
      | Some p \<Rightarrow>
          (case data of
             None \<Rightarrow> NilPointerPanic
           | Some d \<Rightarrow>
               (case Parse p d of
                  Inl err \<Rightarrow> Err (DuringParsingPlugin err name)
                | Inr conf \<Rightarrow>
                    initFilters E rest
                      (fcs @ [\<lparr>Name = name, ParsedConfig = conf, ConfigFactory = Factory p\<rparr>]))))"

definition InitConfigs ::
  "('cfg, 'fc, 'pc, 'cf) env \<Rightarrow> string list \<Rightarrow> string list \<Rightarrow> ('cfg, 'fc, 'pc, 'cf) Consumer
     \<Rightarrow> log_entry list \<times> ('cfg, 'fc, 'pc, 'cf) Consumer result" where
  \<comment> \<open>The entries it logs, and its result; \<open>aks\<close> and \<open>fks\<close> are the orders of the two
     loops. The receiver's contents after an error are not modelled.\<close>
  "InitConfigs E aks fks c =
     ([InfoInitConfigs (ConsumerName c) (namespace c)],
      (case initAuth E (range_go aks (entries (Auth c))) Map.empty of
         Inl e \<Rightarrow> Err e
       | Inr cc \<Rightarrow>
           (case initFilters E (range_go fks (entries (Filters c))) [] of
              Err e \<Rightarrow> Err e
            | NilPointerPanic \<Rightarrow> NilPointerPanic
            | Ok fcs \<Rightarrow> Ok (c\<lparr>ConsumerConfigs := Some cc, FilterConfigs := Some fcs\<rparr>))))"

subsection \<open>The package state\<close>

record ('cfg, 'fc, 'pc, 'cf) state =
  resourceIndex :: "string \<rightharpoonup> (string \<rightharpoonup> addr)"
  scopeIndex :: "(string \<rightharpoonup> (string \<rightharpoonup> (string \<rightharpoonup> addr))) option"
  heap :: "addr \<Rightarrow> ('cfg, 'fc, 'pc, 'cf) Consumer"
  nextAddr :: addr
  logged :: "log_entry list"

definition initialState :: "('cfg, 'fc, 'pc, 'cf) state" where
  \<comment> \<open>\<^verbatim>\<open>resourceIndex = make(...)\<close>; \<^verbatim>\<open>scopeIndex\<close> is declared and not made: nil\<close>
  "initialState = \<lparr>resourceIndex = Map.empty, scopeIndex = None,
     heap = (\<lambda>_. zeroConsumer), nextAddr = 0, logged = []\<rparr>"

record order =
  snapshotNamespaces :: "string list"
    \<comment> \<open>\<^verbatim>\<open>range value.GetFields()\<close>\<close>
  snapshotConsumers :: "string \<Rightarrow> string list"
    \<comment> \<open>\<^verbatim>\<open>range nsValue.GetStructValue().GetFields()\<close>, by namespace\<close>
  authPlugins :: "string \<Rightarrow> string \<Rightarrow> string list"
    \<comment> \<open>\<^verbatim>\<open>range c.Auth\<close>, by namespace and snapshot key\<close>
  filterPlugins :: "string \<Rightarrow> string \<Rightarrow> string list"
    \<comment> \<open>\<^verbatim>\<open>range c.Filters\<close>, by namespace and snapshot key\<close>
  indexNamespaces :: "string list"
    \<comment> \<open>\<^verbatim>\<open>range resourceIndex\<close>\<close>
  indexConsumers :: "string \<Rightarrow> string list"
    \<comment> \<open>\<^verbatim>\<open>range nsValue\<close>, by namespace\<close>
  configPlugins :: "string \<Rightarrow> string \<Rightarrow> string list"
    \<comment> \<open>\<^verbatim>\<open>range value.ConsumerConfigs\<close>, by namespace and key of the consumer\<close>

subsection \<open>updateConsumers: the resource index\<close>

definition reusable ::
  "('cfg, 'fc, 'pc, 'cf) state \<Rightarrow> (string \<rightharpoonup> addr) \<Rightarrow> string \<Rightarrow> string \<Rightarrow> addr option" where
  \<comment> \<open>The negation of \<^verbatim>\<open>!ok || currValue.resourceVersion != v\<close>, with \<^verbatim>\<open>currValue\<close>\<close>
  "reusable st currIdx name v =
     (case currIdx name of
        None \<Rightarrow> None
      | Some p \<Rightarrow> if resourceVersion (heap st p) \<noteq> v then None else Some p)"

definition processEntry ::
  "('cfg, 'fc, 'pc, 'cf) env \<Rightarrow> order \<Rightarrow> string \<Rightarrow> (string \<rightharpoonup> addr) \<Rightarrow> string \<times> pvalue
     \<Rightarrow> (string \<rightharpoonup> addr) \<times> ('cfg, 'fc, 'pc, 'cf) state
     \<Rightarrow> ((string \<rightharpoonup> addr) \<times> ('cfg, 'fc, 'pc, 'cf) state) outcome" where
  \<comment> \<open>The body of the loop over the consumers of a namespace (lines 119 to 144).\<close>
  "processEntry E ord ns currIdx nv acc =
     (let name = fst nv; newIdx = fst acc; st = snd acc;
          fields = GetStructFields (snd nv);
          v = GetStringValue (fields ''v'')
      in case reusable st currIdx name v of
           Some currValue \<Rightarrow> Normal (newIdx(name \<mapsto> currValue), st)
         | None \<Rightarrow>
             (let s = GetStringValue (fields ''d'')
              in case Unmarshal E s zeroConsumer of
                   Inl err \<Rightarrow>
                     Normal (newIdx,
                       st\<lparr>logged := logged st @ [ErrorFailedToUnmarshal err s name ns]\<rparr>)
                 | Inr c0 \<Rightarrow>
                     (let c = c0\<lparr>namespace := ns\<rparr>;
                          r = InitConfigs E (authPlugins ord ns name) (filterPlugins ord ns name) c;
                          st1 = st\<lparr>logged := logged st @ fst r\<rparr>
                      in case snd r of
                           Err err \<Rightarrow>
                             Normal (newIdx,
                               st1\<lparr>logged := logged st1 @ [ErrorFailedToInit err s name ns]\<rparr>)
                         | NilPointerPanic \<Rightarrow> Panic (newIdx, st1)
                         | Ok c1 \<Rightarrow>
                             (let p = nextAddr st1
                              in Normal (newIdx(name \<mapsto> p),
                                   st1\<lparr>heap := (heap st1)(p := c1\<lparr>resourceVersion := v\<rparr>),
                                       nextAddr := Suc p\<rparr>)))))"

fun consumersLoop ::
  "('cfg, 'fc, 'pc, 'cf) env \<Rightarrow> order \<Rightarrow> string \<Rightarrow> (string \<rightharpoonup> addr) \<Rightarrow> (string \<times> pvalue) list
     \<Rightarrow> (string \<rightharpoonup> addr) \<times> ('cfg, 'fc, 'pc, 'cf) state
     \<Rightarrow> ((string \<rightharpoonup> addr) \<times> ('cfg, 'fc, 'pc, 'cf) state) outcome" where
  "consumersLoop E ord ns currIdx [] acc = Normal acc"
| "consumersLoop E ord ns currIdx (nv # rest) acc =
     (case processEntry E ord ns currIdx nv acc of
        Panic acc' \<Rightarrow> Panic acc'
      | Normal acc' \<Rightarrow> consumersLoop E ord ns currIdx rest acc')"

definition processNamespace ::
  "('cfg, 'fc, 'pc, 'cf) env \<Rightarrow> order \<Rightarrow> string \<times> pvalue \<Rightarrow> ('cfg, 'fc, 'pc, 'cf) state
     \<Rightarrow> ('cfg, 'fc, 'pc, 'cf) state outcome" where
  \<comment> \<open>The body of the loop over the namespaces of the snapshot (lines 112 to 146).\<close>
  "processNamespace E ord nsv st =
     (let ns = fst nsv;
          currIdx = (case resourceIndex st ns of None \<Rightarrow> Map.empty | Some m \<Rightarrow> m)
      in case consumersLoop E ord ns currIdx
                (range_go (snapshotConsumers ord ns) (GetStructFields (snd nsv)))
                (Map.empty, st) of
           Panic acc \<Rightarrow> Panic (snd acc)
         | Normal acc \<Rightarrow>
             Normal ((snd acc)\<lparr>resourceIndex := (resourceIndex (snd acc))(ns \<mapsto> fst acc)\<rparr>))"

fun namespacesLoop ::
  "('cfg, 'fc, 'pc, 'cf) env \<Rightarrow> order \<Rightarrow> (string \<times> pvalue) list \<Rightarrow> ('cfg, 'fc, 'pc, 'cf) state
     \<Rightarrow> ('cfg, 'fc, 'pc, 'cf) state outcome" where
  "namespacesLoop E ord [] st = Normal st"
| "namespacesLoop E ord (nsv # rest) st =
     (case processNamespace E ord nsv st of
        Panic st' \<Rightarrow> Panic st'
      | Normal st' \<Rightarrow> namespacesLoop E ord rest st')"

subsection \<open>updateConsumers: the scope index\<close>

definition indexPlugin ::
  "('cfg, 'fc, 'pc, 'cf) env \<Rightarrow> ('cfg, 'fc, 'pc, 'cf) state \<Rightarrow> string \<Rightarrow> addr \<Rightarrow> string \<times> 'cfg
     \<Rightarrow> (string \<rightharpoonup> (string \<rightharpoonup> addr)) \<times> log_entry list
     \<Rightarrow> (string \<rightharpoonup> (string \<rightharpoonup> addr)) \<times> log_entry list" where
  \<comment> \<open>The body of the loop over the configs of a consumer (lines 155 to 169). A pointer
     stored in the index is never nil, so \<^verbatim>\<open>pluginScopeIdx[idx] != nil\<close> is: the key
     is there.\<close>
  "indexPlugin E st ns p pc acc =
     (let pluginName = fst pc; cfg = snd pc; nsScopeIdx = fst acc; lg = snd acc;
          pluginScopeIdx = (case nsScopeIdx pluginName of None \<Rightarrow> Map.empty | Some m \<Rightarrow> m);
          nsScopeIdx1 = nsScopeIdx(pluginName \<mapsto> pluginScopeIdx);
          idx = Index E cfg
      in case pluginScopeIdx idx of
           Some q \<Rightarrow>
             (nsScopeIdx1,
              lg @ [ErrorDuplicateIndex (ConsumerName (heap st p)) pluginName idx ns
                      (ConsumerName (heap st q))])
         | None \<Rightarrow> (nsScopeIdx(pluginName \<mapsto> pluginScopeIdx(idx \<mapsto> p)), lg))"

fun pluginsLoop ::
  "('cfg, 'fc, 'pc, 'cf) env \<Rightarrow> ('cfg, 'fc, 'pc, 'cf) state \<Rightarrow> string \<Rightarrow> addr \<Rightarrow> (string \<times> 'cfg) list
     \<Rightarrow> (string \<rightharpoonup> (string \<rightharpoonup> addr)) \<times> log_entry list
     \<Rightarrow> (string \<rightharpoonup> (string \<rightharpoonup> addr)) \<times> log_entry list" where
  "pluginsLoop E st ns p [] acc = acc"
| "pluginsLoop E st ns p (pc # rest) acc = pluginsLoop E st ns p rest (indexPlugin E st ns p pc acc)"

fun scopeConsumersLoop ::
  "('cfg, 'fc, 'pc, 'cf) env \<Rightarrow> order \<Rightarrow> ('cfg, 'fc, 'pc, 'cf) state \<Rightarrow> string \<Rightarrow> (string \<times> addr) list
     \<Rightarrow> (string \<rightharpoonup> (string \<rightharpoonup> addr)) \<times> log_entry list
     \<Rightarrow> (string \<rightharpoonup> (string \<rightharpoonup> addr)) \<times> log_entry list" where
  \<comment> \<open>\<^verbatim>\<open>for _, value := range nsValue\<close>\<close>
  "scopeConsumersLoop E ord st ns [] acc = acc"
| "scopeConsumersLoop E ord st ns (np # rest) acc =
     scopeConsumersLoop E ord st ns rest
       (pluginsLoop E st ns (snd np)
          (range_go (configPlugins ord ns (fst np)) (entries (ConsumerConfigs (heap st (snd np)))))
          acc)"

fun scopeNamespacesLoop ::
  "('cfg, 'fc, 'pc, 'cf) env \<Rightarrow> order \<Rightarrow> ('cfg, 'fc, 'pc, 'cf) state
     \<Rightarrow> (string \<times> (string \<rightharpoonup> addr)) list
     \<Rightarrow> (string \<rightharpoonup> (string \<rightharpoonup> (string \<rightharpoonup> addr))) \<times> log_entry list
     \<Rightarrow> (string \<rightharpoonup> (string \<rightharpoonup> (string \<rightharpoonup> addr))) \<times> log_entry list" where
  \<comment> \<open>\<^verbatim>\<open>for ns, nsValue := range resourceIndex\<close>\<close>
  "scopeNamespacesLoop E ord st [] acc = acc"
| "scopeNamespacesLoop E ord st (nm # rest) acc =
     (let r = scopeConsumersLoop E ord st (fst nm)
                (range_go (indexConsumers ord (fst nm)) (snd nm)) (Map.empty, snd acc)
      in scopeNamespacesLoop E ord st rest ((fst acc)(fst nm \<mapsto> fst r), snd r))"

definition rebuildScopeIndex ::
  "('cfg, 'fc, 'pc, 'cf) env \<Rightarrow> order \<Rightarrow> ('cfg, 'fc, 'pc, 'cf) state \<Rightarrow> ('cfg, 'fc, 'pc, 'cf) state" where
  \<comment> \<open>Lines 150 to 173.\<close>
  "rebuildScopeIndex E ord st =
     (let r = scopeNamespacesLoop E ord st
                (range_go (indexNamespaces ord) (resourceIndex st)) (Map.empty, logged st)
      in st\<lparr>scopeIndex := Some (fst r), logged := snd r\<rparr>)"

subsection \<open>updateConsumers and LookupConsumer\<close>

definition updateConsumers ::
  "('cfg, 'fc, 'pc, 'cf) env \<Rightarrow> order \<Rightarrow> (string \<rightharpoonup> pvalue) \<Rightarrow> ('cfg, 'fc, 'pc, 'cf) state
     \<Rightarrow> ('cfg, 'fc, 'pc, 'cf) state outcome" where
  \<comment> \<open>\<open>snapshot\<close> is \<^verbatim>\<open>value.GetFields()\<close>. \<open>Panic st\<close>: the call panicked, leaving the
     package variables as in \<open>st\<close>.\<close>
  "updateConsumers E ord snapshot st =
     (case namespacesLoop E ord (range_go (snapshotNamespaces ord) snapshot) st of
        Panic st' \<Rightarrow> Panic st'
      | Normal st' \<Rightarrow> Normal (rebuildScopeIndex E ord st'))"

definition LookupConsumer ::
  "('cfg, 'fc, 'pc, 'cf) state \<Rightarrow> string \<Rightarrow> string \<Rightarrow> string \<Rightarrow> addr option \<times> bool" where
  \<comment> \<open>A read of \<^verbatim>\<open>scopeIndex\<close>; reading a nil map finds nothing.\<close>
  "LookupConsumer st ns pluginName key =
     (case entries (scopeIndex st) ns of
        Some nsIdx \<Rightarrow>
          (case nsIdx pluginName of
             Some pluginIdx \<Rightarrow>
               (case pluginIdx key of Some c \<Rightarrow> (Some c, True) | None \<Rightarrow> (None, False))
           | None \<Rightarrow> (None, False))
      | None \<Rightarrow> (None, False))"

section \<open>Auxiliary notions\<close>

text \<open>
  What the theorems below speak with: the entry of the resource index under a namespace
  and a name, the invariant of the states the program reaches, and the parts of a
  snapshot entry.
\<close>

definition riLookup :: "('cfg, 'fc, 'pc, 'cf) state \<Rightarrow> string \<Rightarrow> string \<Rightarrow> addr option" where
  \<comment> \<open>\<^verbatim>\<open>resourceIndex[ns][name]\<close>\<close>
  "riLookup st ns name = (case resourceIndex st ns of None \<Rightarrow> None | Some m \<Rightarrow> m name)"

definition currIdxOf :: "('cfg, 'fc, 'pc, 'cf) state \<Rightarrow> string \<Rightarrow> (string \<rightharpoonup> addr)" where
  \<comment> \<open>\<^verbatim>\<open>currIdx\<close> of lines 112 to 115\<close>
  "currIdxOf st ns = (case resourceIndex st ns of None \<Rightarrow> Map.empty | Some m \<Rightarrow> m)"

definition bounded :: "('cfg, 'fc, 'pc, 'cf) state \<Rightarrow> bool" where
  \<comment> \<open>every indexed address has been handed out\<close>
  "bounded st \<longleftrightarrow> (\<forall>ns name p. riLookup st ns name = Some p \<longrightarrow> p < nextAddr st)"

definition wf_state :: "('cfg, 'fc, 'pc, 'cf) state \<Rightarrow> bool" where
  \<comment> \<open>and no two entries of the resource index share a Consumer\<close>
  "wf_state st \<longleftrightarrow>
     bounded st \<and>
     (\<forall>ns name ns' name' p.
        riLookup st ns name = Some p \<longrightarrow> riLookup st ns' name' = Some p \<longrightarrow> ns' = ns \<and> name' = name)"

definition evolves :: "('cfg, 'fc, 'pc, 'cf) state \<Rightarrow> ('cfg, 'fc, 'pc, 'cf) state \<Rightarrow> bool" where
  \<comment> \<open>addresses are only added, and a Consumer once allocated is not written again\<close>
  "evolves st st' \<longleftrightarrow>
     nextAddr st \<le> nextAddr st' \<and>
     scopeIndex st' = scopeIndex st \<and>
     (\<forall>p. p < nextAddr st \<longrightarrow> heap st' p = heap st p)"

definition ri_phase ::
  "('cfg, 'fc, 'pc, 'cf) env \<Rightarrow> order \<Rightarrow> (string \<rightharpoonup> pvalue) \<Rightarrow> ('cfg, 'fc, 'pc, 'cf) state
     \<Rightarrow> ('cfg, 'fc, 'pc, 'cf) state outcome" where
  \<comment> \<open>the first loop of \<^verbatim>\<open>updateConsumers\<close> (lines 111 to 147)\<close>
  "ri_phase E ord snapshot st = namespacesLoop E ord (range_go (snapshotNamespaces ord) snapshot) st"

definition entryVersion :: "pvalue \<Rightarrow> string" where
  \<comment> \<open>\<^verbatim>\<open>fields["v"].GetStringValue()\<close> of a snapshot entry\<close>
  "entryVersion e = GetStringValue (GetStructFields e ''v'')"

definition entryBody :: "pvalue \<Rightarrow> string" where
  \<comment> \<open>\<^verbatim>\<open>fields["d"].GetStringValue()\<close> of a snapshot entry\<close>
  "entryBody e = GetStringValue (GetStructFields e ''d'')"

definition look :: "(string \<rightharpoonup> (string \<rightharpoonup> addr)) \<Rightarrow> string \<Rightarrow> string \<Rightarrow> addr option" where
  \<comment> \<open>\<^verbatim>\<open>nsScopeIdx[pluginName][key]\<close>\<close>
  "look nsIdx pl k = (case nsIdx pl of None \<Rightarrow> None | Some m \<Rightarrow> m k)"

definition produces ::
  "('cfg, 'fc, 'pc, 'cf) env \<Rightarrow> ('cfg, 'fc, 'pc, 'cf) state \<Rightarrow> addr \<Rightarrow> string \<Rightarrow> string \<Rightarrow> bool" where
  \<comment> \<open>the Consumer at \<open>p\<close> has a config for the plugin whose \<^verbatim>\<open>Index()\<close> is the key\<close>
  "produces E st p pl k \<longleftrightarrow>
     (case entries (ConsumerConfigs (heap st p)) pl of None \<Rightarrow> False | Some cfg \<Rightarrow> Index E cfg = k)"

definition writes ::
  "('cfg, 'fc, 'pc, 'cf) env \<Rightarrow> order \<Rightarrow> ('cfg, 'fc, 'pc, 'cf) state \<Rightarrow> string \<Rightarrow> string \<Rightarrow> string
     \<Rightarrow> string \<times> addr \<Rightarrow> bool" where
  \<comment> \<open>the rebuild, at the entry \<open>np\<close> of a namespace, reaches a write of (plugin, key)\<close>
  "writes E ord st ns pl k np \<longleftrightarrow>
     pl \<in> set (configPlugins ord ns (fst np)) \<and> produces E st (snd np) pl k"

definition nsScope ::
  "('cfg, 'fc, 'pc, 'cf) env \<Rightarrow> order \<Rightarrow> ('cfg, 'fc, 'pc, 'cf) state \<Rightarrow> string \<Rightarrow> (string \<rightharpoonup> addr)
     \<Rightarrow> (string \<rightharpoonup> (string \<rightharpoonup> addr))" where
  \<comment> \<open>\<^verbatim>\<open>nsScopeIdx\<close> as lines 152 to 171 build it for a namespace\<close>
  "nsScope E ord st ns m =
     fst (scopeConsumersLoop E ord st ns (range_go (indexConsumers ord ns) m) (Map.empty, []))"

definition wellFormedFilter :: "('cfg, 'fc, 'pc, 'cf) env \<Rightarrow> 'fc \<Rightarrow> bool" where
  \<comment> \<open>\<^verbatim>\<open>encoding/json\<close> writes the \<^verbatim>\<open>model.FilterConfig\<close> as a value other than null and
     reads it back from that value\<close>
  "wellFormedFilter E f \<longleftrightarrow>
     (case marshalFilterConfig E f of
        Inl msg \<Rightarrow> False
      | Inr j \<Rightarrow> j \<noteq> JNull \<and> unmarshalFilterConfig E j = Inr f)"

fun putAll :: "(string \<times> 'v) list \<Rightarrow> (string \<rightharpoonup> 'v) \<Rightarrow> (string \<rightharpoonup> 'v)" where
  \<comment> \<open>the entries of a list stored into a map, one after the other\<close>
  "putAll [] m = m"
| "putAll (kv # xs) m = putAll xs (m(fst kv \<mapsto> snd kv))"

definition bodyResult ::
  "('cfg, 'fc, 'pc, 'cf) env \<Rightarrow> order \<Rightarrow> string \<Rightarrow> string \<Rightarrow> pvalue
     \<Rightarrow> ('cfg, 'fc, 'pc, 'cf) Consumer result" where
  \<comment> \<open>what lines 124 to 138 make of a snapshot entry that is not reused\<close>
  "bodyResult E ord ns name e =
     (case Unmarshal E (entryBody e) zeroConsumer of
        Inl err \<Rightarrow> Err err
      | Inr c0 \<Rightarrow>
          snd (InitConfigs E (authPlugins ord ns name) (filterPlugins ord ns name)
                 (c0\<lparr>namespace := ns\<rparr>)))"

definition initializes ::
  "('cfg, 'fc, 'pc, 'cf) env \<Rightarrow> order \<Rightarrow> string \<Rightarrow> string \<Rightarrow> pvalue \<Rightarrow> bool" where
  \<comment> \<open>a well-formed entry: its body unmarshals and its configs initialize\<close>
  "initializes E ord ns name e \<longleftrightarrow> (case bodyResult E ord ns name e of Ok c \<Rightarrow> True | _ \<Rightarrow> False)"

definition failsToInit ::
  "('cfg, 'fc, 'pc, 'cf) env \<Rightarrow> order \<Rightarrow> string \<Rightarrow> string \<Rightarrow> pvalue \<Rightarrow> bool" where
  \<comment> \<open>an entry whose \<^verbatim>\<open>Unmarshal\<close> or \<^verbatim>\<open>InitConfigs\<close> returns an error\<close>
  "failsToInit E ord ns name e \<longleftrightarrow> (case bodyResult E ord ns name e of Err err \<Rightarrow> True | _ \<Rightarrow> False)"

definition sameButLog :: "('cfg, 'fc, 'pc, 'cf) state \<Rightarrow> ('cfg, 'fc, 'pc, 'cf) state \<Rightarrow> bool" where
  \<comment> \<open>two states with the same indices and the same heap\<close>
  "sameButLog s t \<longleftrightarrow>
     resourceIndex s = resourceIndex t \<and> scopeIndex s = scopeIndex t \<and>
     heap s = heap t \<and> nextAddr s = nextAddr t"

definition without :: "(string \<rightharpoonup> pvalue) \<Rightarrow> string \<Rightarrow> string \<Rightarrow> (string \<rightharpoonup> pvalue)" where
  \<comment> \<open>the snapshot with one consumer entry taken out of a namespace\<close>
  "without snapshot ns name =
     (case snapshot ns of
        None \<Rightarrow> snapshot
      | Some nsv \<Rightarrow> snapshot(ns \<mapsto> StructValue ((GetStructFields nsv)(name := None))))"

definition authOk :: "('cfg, 'fc, 'pc, 'cf) env \<Rightarrow> string \<Rightarrow> string \<Rightarrow> bool" where
  \<comment> \<open>the body of the loop of lines 67 to 85 passes this entry without an error\<close>
  "authOk E name data \<longleftrightarrow>
     (case LoadHttpPlugin E name of
        Some (ConsumerPlugin conf) \<Rightarrow>
          (case protojsonUnmarshal E data conf of
             Inl err \<Rightarrow> False
           | Inr conf' \<Rightarrow> Validate E conf' = None)
      | _ \<Rightarrow> False)"

definition filterOk :: "('cfg, 'fc, 'pc, 'cf) env \<Rightarrow> string \<Rightarrow> 'fc option \<Rightarrow> bool" where
  \<comment> \<open>the body of the loop of lines 88 to 104 passes this entry without an error or a panic\<close>
  "filterOk E name data \<longleftrightarrow>
     (case LoadHttpFilterConfigFactoryAndParser E name of
        None \<Rightarrow> False
      | Some p \<Rightarrow>
          (case data of
             None \<Rightarrow> False
           | Some d \<Rightarrow> (case Parse p d of Inl err \<Rightarrow> False | Inr conf \<Rightarrow> True)))"

definition covers :: "string list \<Rightarrow> (string \<rightharpoonup> 'v) \<Rightarrow> bool" where
  \<comment> \<open>the order visits every key of the map\<close>
  "covers ks m \<longleftrightarrow> dom m \<subseteq> set ks"

definition visits :: "('cfg, 'fc, 'pc, 'cf) env \<Rightarrow> order \<Rightarrow> (string \<rightharpoonup> pvalue) \<Rightarrow> bool" where
  \<comment> \<open>the loops over the snapshot and over the payloads of its bodies visit every entry\<close>
  "visits E ord snapshot \<longleftrightarrow>
     covers (snapshotNamespaces ord) snapshot \<and>
     (\<forall>ns nsv. snapshot ns = Some nsv \<longrightarrow>
        covers (snapshotConsumers ord ns) (GetStructFields nsv) \<and>
        (\<forall>name e c0. GetStructFields nsv name = Some e \<longrightarrow>
           Unmarshal E (entryBody e) zeroConsumer = Inr c0 \<longrightarrow>
           covers (authPlugins ord ns name) (entries (Auth c0)) \<and>
           covers (filterPlugins ord ns name) (entries (Filters c0))))"

definition collisionFree :: "('cfg, 'fc, 'pc, 'cf) env \<Rightarrow> ('cfg, 'fc, 'pc, 'cf) state \<Rightarrow> bool" where
  \<comment> \<open>no two consumers of a namespace produce the same (plugin, key)\<close>
  "collisionFree E st \<longleftrightarrow>
     (\<forall>ns name name' p p' pl k.
        riLookup st ns name = Some p \<longrightarrow> riLookup st ns name' = Some p' \<longrightarrow>
        produces E st p pl k \<longrightarrow> produces E st p' pl k \<longrightarrow> name' = name)"

definition indexes :: "order \<Rightarrow> ('cfg, 'fc, 'pc, 'cf) state \<Rightarrow> bool" where
  \<comment> \<open>the rebuild visits every namespace, consumer and config of the resource index\<close>
  "indexes ord st \<longleftrightarrow>
     (\<forall>ns m. resourceIndex st ns = Some m \<longrightarrow>
        ns \<in> set (indexNamespaces ord) \<and>
        (\<forall>name p. m name = Some p \<longrightarrow>
           name \<in> set (indexConsumers ord ns) \<and>
           dom (entries (ConsumerConfigs (heap st p))) \<subseteq> set (configPlugins ord ns name)))"

section \<open>A small registry to run the model on\<close>

text \<open>
  One consumer plugin \<^verbatim>\<open>keyAuth\<close> whose config is its payload and whose index key is
  that payload; a plugin \<^verbatim>\<open>limitReq\<close> that is a filter and no consumer plugin; five
  consumer bodies, of which \<^verbatim>\<open>alice\<close> and \<^verbatim>\<open>bob\<close> carry the same key, \<^verbatim>\<open>carol\<close>
  names a plugin that is not registered, \<^verbatim>\<open>dave\<close> has a filter config and \<^verbatim>\<open>eve\<close> has
  null for one. The text layer knows these five documents.
\<close>

definition aliceText :: string where
  \<open>aliceText = ''{"name":"alice","auth":{"keyAuth":"abc"},"filters":null}''\<close>

definition aliceDoc :: json where
  "aliceDoc = JObject [(''name'', JString ''alice''),
     (''auth'', JObject [(''keyAuth'', JString ''abc'')]), (''filters'', JNull)]"

definition bobText :: string where
  \<open>bobText = ''{"name":"bob","auth":{"keyAuth":"abc"},"filters":null}''\<close>

definition bobDoc :: json where
  "bobDoc = JObject [(''name'', JString ''bob''),
     (''auth'', JObject [(''keyAuth'', JString ''abc'')]), (''filters'', JNull)]"

definition carolText :: string where
  \<open>carolText = ''{"name":"carol","auth":{"hmacAuth":"xyz"},"filters":null}''\<close>

definition carolDoc :: json where
  "carolDoc = JObject [(''name'', JString ''carol''),
     (''auth'', JObject [(''hmacAuth'', JString ''xyz'')]), (''filters'', JNull)]"

definition daveText :: string where
  \<open>daveText = ''{"name":"dave","auth":{"keyAuth":"k2"},"filters":{"limitReq":{"config":{}}}}''\<close>

definition daveDoc :: json where
  "daveDoc = JObject [(''name'', JString ''dave''),
     (''auth'', JObject [(''keyAuth'', JString ''k2'')]),
     (''filters'', JObject [(''limitReq'', JObject [(''config'', JObject [])])])]"

definition eveText :: string where
  \<open>eveText = ''{"name":"eve","filters":{"limitReq":null}}''\<close>

definition eveDoc :: json where
  "eveDoc = JObject [(''name'', JString ''eve''), (''filters'', JObject [(''limitReq'', JNull)])]"

definition demoParse :: "string \<Rightarrow> json option" where
  "demoParse s = (if s = aliceText then Some aliceDoc else if s = bobText then Some bobDoc
      else if s = carolText then Some carolDoc else if s = daveText then Some daveDoc
      else if s = eveText then Some eveDoc else None)"

definition demoRender :: "json \<Rightarrow> string" where
  "demoRender j = (if j = aliceDoc then aliceText else if j = bobDoc then bobText
      else if j = carolDoc then carolText else if j = daveDoc then daveText
      else if j = eveDoc then eveText else [])"

definition demoEnv :: "(string, json, json, string) env" where
  "demoEnv = \<lparr>jsonParse = demoParse, jsonRender = demoRender, jsonFoldName = (\<lambda>k. k),
     marshalFilterConfig = Inr, unmarshalFilterConfig = Inr,
     LoadHttpPlugin = (\<lambda>n. if n = ''keyAuth'' then Some (ConsumerPlugin [])
        else if n = ''limitReq'' then Some PlainPlugin else None),
     LoadHttpFilterConfigFactoryAndParser =
       (\<lambda>n. if n = ''limitReq'' then Some \<lparr>Parse = Inr, Factory = ''limitReq''\<rparr> else None),
     protojsonUnmarshal = (\<lambda>data conf. if data = [] then Inl ''empty'' else Inr data),
     Validate = (\<lambda>cfg. None),
     Index = (\<lambda>cfg. cfg)\<rparr>"

definition entry :: "string \<Rightarrow> string \<Rightarrow> pvalue" where
  "entry v d = StructValue [''v'' \<mapsto> StringValue v, ''d'' \<mapsto> StringValue d]"

definition demoSnapshot :: "string \<rightharpoonup> pvalue" where
  "demoSnapshot = [''ns1'' \<mapsto> StructValue [''alice'' \<mapsto> entry ''1'' aliceText,
      ''bob'' \<mapsto> entry ''1'' bobText, ''carol'' \<mapsto> entry ''1'' carolText]]"

definition demoOrder :: order where
  "demoOrder = \<lparr>snapshotNamespaces = [''ns1''],
     snapshotConsumers = (\<lambda>ns. [''alice'', ''bob'', ''carol'']),
     authPlugins = (\<lambda>ns name. [''keyAuth'', ''hmacAuth'']),
     filterPlugins = (\<lambda>ns name. [''limitReq'']),
     indexNamespaces = [''ns1''],
     indexConsumers = (\<lambda>ns. [''alice'', ''bob'', ''carol'']),
     configPlugins = (\<lambda>ns name. [''keyAuth'', ''hmacAuth''])\<rparr>"

definition demoState :: "(string, json, json, string) state" where
  \<comment> \<open>the state after a first update\<close>
  "demoState = final (updateConsumers demoEnv demoOrder demoSnapshot initialState)"

definition demoSnapshotNs2 :: "string \<rightharpoonup> pvalue" where
  "demoSnapshotNs2 = [''ns2'' \<mapsto> StructValue [''bob'' \<mapsto> entry ''1'' bobText]]"

definition demoOrderNs2 :: order where
  "demoOrderNs2 = \<lparr>snapshotNamespaces = [''ns2''],
     snapshotConsumers = (\<lambda>ns. [''bob'']),
     authPlugins = (\<lambda>ns name. [''keyAuth'']),
     filterPlugins = (\<lambda>ns name. []),
     indexNamespaces = [''ns2'', ''ns1''],
     indexConsumers = (\<lambda>ns. [''bob'', ''alice'']),
     configPlugins = (\<lambda>ns name. [''keyAuth''])\<rparr>"

definition demoEnvPlain :: "(string, json, json, string) env" where
  \<comment> \<open>the same registry, with \<^verbatim>\<open>hmacAuth\<close> registered as a plugin that is no consumer
     plugin\<close>
  "demoEnvPlain = demoEnv\<lparr>LoadHttpPlugin :=
     (\<lambda>n. if n = ''hmacAuth'' then Some PlainPlugin else LoadHttpPlugin demoEnv n)\<rparr>"

definition demoCarol :: "(string, json, json, string) Consumer" where
  "demoCarol = zeroConsumer\<lparr>ConsumerName := ''carol'', Auth := Some [''hmacAuth'' \<mapsto> ''xyz'']\<rparr>"

definition demoSnapshot2 :: "string \<rightharpoonup> pvalue" where
  \<comment> \<open>a second snapshot: \<^verbatim>\<open>alice\<close> as before, \<^verbatim>\<open>bob\<close> and \<^verbatim>\<open>carol\<close> gone\<close>
  "demoSnapshot2 = [''ns1'' \<mapsto> StructValue [''alice'' \<mapsto> entry ''1'' aliceText]]"

definition demoState2 :: "(string, json, json, string) state" where
  "demoState2 = final (updateConsumers demoEnv demoOrder demoSnapshot2 demoState)"


definition demoSnapshotEve :: "string \<rightharpoonup> pvalue" where
  \<comment> \<open>a snapshot after \<open>demoSnapshot\<close>: \<^verbatim>\<open>bob\<close> as before, \<^verbatim>\<open>alice\<close> and \<^verbatim>\<open>carol\<close> gone,
     \<^verbatim>\<open>eve\<close> new\<close>
  "demoSnapshotEve = [''ns1'' \<mapsto> StructValue [''bob'' \<mapsto> entry ''1'' bobText,
      ''eve'' \<mapsto> entry ''1'' eveText]]"

definition demoOrderEve :: order where
  "demoOrderEve = \<lparr>snapshotNamespaces = [''ns1''],
     snapshotConsumers = (\<lambda>ns. [''bob'', ''eve'']),
     authPlugins = (\<lambda>ns name. [''keyAuth'']),
     filterPlugins = (\<lambda>ns name. [''limitReq'']),
     indexNamespaces = [''ns1''],
     indexConsumers = (\<lambda>ns. [''alice'', ''bob'', ''eve'']),
     configPlugins = (\<lambda>ns name. [''keyAuth''])\<rparr>"

definition demoSnapshotAliceEve :: "string \<rightharpoonup> pvalue" where
  \<comment> \<open>a first snapshot with \<^verbatim>\<open>alice\<close> and \<^verbatim>\<open>eve\<close>\<close>
  "demoSnapshotAliceEve = [''ns1'' \<mapsto> StructValue [''alice'' \<mapsto> entry ''1'' aliceText,
      ''eve'' \<mapsto> entry ''1'' eveText]]"

definition demoOrderAliceEve :: order where
  "demoOrderAliceEve = \<lparr>snapshotNamespaces = [''ns1''],
     snapshotConsumers = (\<lambda>ns. [''alice'', ''eve'']),
     authPlugins = (\<lambda>ns name. [''keyAuth'']),
     filterPlugins = (\<lambda>ns name. [''limitReq'']),
     indexNamespaces = [''ns1''],
     indexConsumers = (\<lambda>ns. [''alice'', ''eve'']),
     configPlugins = (\<lambda>ns name. [''keyAuth''])\<rparr>"




definition demoOrderRev :: order where
  \<comment> \<open>\<open>demoOrder\<close> with the rebuild visiting \<^verbatim>\<open>bob\<close> before \<^verbatim>\<open>alice\<close>\<close>
  "demoOrderRev = demoOrder\<lparr>indexConsumers := (\<lambda>ns. [''bob'', ''alice'', ''carol''])\<rparr>"

definition demoStateRev :: "(string, json, json, string) state" where
  "demoStateRev = final (updateConsumers demoEnv demoOrderRev demoSnapshot demoState)"

definition demoState2Rev :: "(string, json, json, string) state" where
  "demoState2Rev = final (updateConsumers demoEnv demoOrderRev demoSnapshot2 demoState2)"

section \<open>Lemmas\<close>

subsection \<open>range\<close>

lemma range_go_Nil [simp]: "range_go [] m = []"
  by (simp add: range_go_def)

lemma range_go_Cons:
  "range_go (k # ks) m = (case m k of None \<Rightarrow> range_go ks m | Some v \<Rightarrow> (k, v) # range_go ks m)"
  by (simp add: range_go_def split: option.splits)

lemma range_go_append: "range_go (ks @ ks') m = range_go ks m @ range_go ks' m"
  by (induction ks) (auto simp: range_go_Cons split: option.splits)

lemma set_range_go: "set (range_go ks m) = {(k, v). k \<in> set ks \<and> m k = Some v}"
  by (induction ks) (auto simp: range_go_Cons split: option.splits)



lemma range_go_total:
  "set ks \<subseteq> dom m \<Longrightarrow> range_go ks m = map (\<lambda>k. (k, the (m k))) ks"
  by (induction ks) (auto simp: range_go_Cons split: option.splits)

lemma range_go_enumerates: "enumerates ks m \<Longrightarrow> range_go ks m = map (\<lambda>k. (k, the (m k))) ks"
  by (simp add: enumerates_def range_go_total)

lemma initAuth_append:
  "initAuth E (xs @ ys) cc = (case initAuth E xs cc of Inl e \<Rightarrow> Inl e | Inr cc' \<Rightarrow> initAuth E ys cc')"
  by (induction xs arbitrary: cc)
     (auto split: option.splits http_plugin.splits sum.splits)

subsection \<open>The resource index\<close>

lemma evolves_refl [simp]: "evolves st st"
  by (simp add: evolves_def)

lemma evolves_trans: "evolves a b \<Longrightarrow> evolves b c \<Longrightarrow> evolves a c"
  by (auto simp: evolves_def)

lemma processEntry_evolves:
  "evolves (snd acc) (snd (final (processEntry E ord ns currIdx nv acc)))"
  by (cases acc)
     (auto simp: processEntry_def Let_def evolves_def split: option.splits sum.splits result.splits)

lemma processEntry_resourceIndex:
  "resourceIndex (snd (final (processEntry E ord ns currIdx nv acc))) = resourceIndex (snd acc)"
  by (cases acc)
     (auto simp: processEntry_def Let_def split: option.splits sum.splits result.splits)

lemma processEntry_newIdx:
  assumes "fst (final (processEntry E ord ns currIdx nv acc)) name = Some q"
  shows "fst acc name = Some q \<or> (name = fst nv \<and> (currIdx name = Some q \<or>
           (nextAddr (snd acc) \<le> q \<and> q < nextAddr (snd (final (processEntry E ord ns currIdx nv acc))))))"
  using assms
  by (cases acc)
     (auto simp: processEntry_def Let_def reusable_def split: option.splits sum.splits result.splits if_splits)

lemma processEntry_other:
  "name \<noteq> fst nv \<Longrightarrow> fst (final (processEntry E ord ns currIdx nv acc)) name = fst acc name"
  by (cases acc)
     (auto simp: processEntry_def Let_def split: option.splits sum.splits result.splits)

lemma consumersLoop_append:
  "consumersLoop E ord ns currIdx (xs @ ys) acc =
     (case consumersLoop E ord ns currIdx xs acc of
        Panic a \<Rightarrow> Panic a | Normal a \<Rightarrow> consumersLoop E ord ns currIdx ys a)"
  by (induction xs arbitrary: acc) (auto split: outcome.splits)

lemma consumersLoop_invariant:
  assumes "P acc"
      and "\<And>nv a. nv \<in> set xs \<Longrightarrow> P a \<Longrightarrow> P (final (processEntry E ord ns currIdx nv a))"
  shows "P (final (consumersLoop E ord ns currIdx xs acc))"
  using assms
proof (induction xs arbitrary: acc)
  case Nil
  then show ?case by simp
next
  case (Cons nv xs)
  have step: "P (final (processEntry E ord ns currIdx nv acc))"
    using Cons.prems by simp
  show ?case
  proof (cases "processEntry E ord ns currIdx nv acc")
    case (Normal a)
    with step have "P a" by simp
    then have "P (final (consumersLoop E ord ns currIdx xs a))"
      using Cons.prems(2) by (intro Cons.IH) auto
    with Normal show ?thesis by simp
  next
    case (Panic a)
    with step show ?thesis by simp
  qed
qed

lemma consumersLoop_evolves:
  "evolves (snd acc) (snd (final (consumersLoop E ord ns currIdx xs acc)))"
  by (rule consumersLoop_invariant[where P = "\<lambda>a. evolves (snd acc) (snd a)"])
     (auto intro: evolves_trans processEntry_evolves)

lemma consumersLoop_resourceIndex:
  "resourceIndex (snd (final (consumersLoop E ord ns currIdx xs acc))) = resourceIndex (snd acc)"
  by (rule consumersLoop_invariant[where P = "\<lambda>a. resourceIndex (snd a) = resourceIndex (snd acc)"])
     (auto simp: processEntry_resourceIndex)

lemma consumersLoop_other:
  "name \<notin> fst ` set xs \<Longrightarrow> fst (final (consumersLoop E ord ns currIdx xs acc)) name = fst acc name"
proof (rule consumersLoop_invariant[where P = "\<lambda>a. fst a name = fst acc name"], goal_cases)
  case 1
  then show ?case by simp
next
  case (2 nv a)
  then have "name \<noteq> fst nv" by auto
  then show ?case using 2 by (simp add: processEntry_other)
qed

lemma consumersLoop_newIdx:
  assumes "fst (final (consumersLoop E ord ns currIdx xs acc)) name = Some q"
  shows "fst acc name = Some q \<or> (name \<in> fst ` set xs \<and> (currIdx name = Some q \<or>
           (nextAddr (snd acc) \<le> q \<and> q < nextAddr (snd (final (consumersLoop E ord ns currIdx xs acc))))))"
proof -
  let ?P = "\<lambda>a. evolves (snd acc) (snd a) \<and> (\<forall>name q. fst a name = Some q \<longrightarrow>
      fst acc name = Some q \<or> (name \<in> fst ` set xs \<and> (currIdx name = Some q \<or>
           (nextAddr (snd acc) \<le> q \<and> q < nextAddr (snd a)))))"
  have "?P (final (consumersLoop E ord ns currIdx xs acc))"
  proof (rule consumersLoop_invariant[where P = ?P], goal_cases)
    case 1
    then show ?case by simp
  next
    case (2 nv a)
    let ?a' = "final (processEntry E ord ns currIdx nv a)"
    have ev: "evolves (snd a) (snd ?a')" by (rule processEntry_evolves)
    have "evolves (snd acc) (snd ?a')" using 2 ev by (blast intro: evolves_trans)
    moreover have "fst acc n = Some q' \<or> (n \<in> fst ` set xs \<and> (currIdx n = Some q' \<or>
           (nextAddr (snd acc) \<le> q' \<and> q' < nextAddr (snd ?a'))))" if "fst ?a' n = Some q'" for n q'
      using processEntry_newIdx[OF that] 2 ev
      by (fastforce simp: evolves_def)
    ultimately show ?case by blast
  qed
  with assms show ?thesis by blast
qed

lemma processNamespace_evolves:
  "evolves st (final (processNamespace E ord nsv st))"
  using consumersLoop_evolves[of "(Map.empty, st)" E ord "fst nsv" "currIdxOf st (fst nsv)"
          "range_go (snapshotConsumers ord (fst nsv)) (GetStructFields (snd nsv))"]
  by (auto simp: processNamespace_def Let_def currIdxOf_def evolves_def split: outcome.splits)

lemma processNamespace_other:
  "ns \<noteq> fst nsv \<Longrightarrow> resourceIndex (final (processNamespace E ord nsv st)) ns = resourceIndex st ns"
  using consumersLoop_resourceIndex[of E ord "fst nsv" "currIdxOf st (fst nsv)"
          "range_go (snapshotConsumers ord (fst nsv)) (GetStructFields (snd nsv))" "(Map.empty, st)"]
  by (auto simp: processNamespace_def Let_def currIdxOf_def split: outcome.splits)

lemma currIdxOf_riLookup: "currIdxOf st ns name = riLookup st ns name"
  by (simp add: currIdxOf_def riLookup_def split: option.splits)

lemma processNamespace_provenance:
  assumes "riLookup (final (processNamespace E ord nsv st)) ns name = Some q"
  shows "riLookup st ns name = Some q \<or>
         (nextAddr st \<le> q \<and> q < nextAddr (final (processNamespace E ord nsv st)))"
proof -
  let ?xs = "range_go (snapshotConsumers ord (fst nsv)) (GetStructFields (snd nsv))"
  let ?r = "consumersLoop E ord (fst nsv) (currIdxOf st (fst nsv)) ?xs (Map.empty, st)"
  have ri: "resourceIndex (snd (final ?r)) = resourceIndex st"
    using consumersLoop_resourceIndex[of E ord "fst nsv" "currIdxOf st (fst nsv)" ?xs "(Map.empty, st)"]
    by simp
  show ?thesis
  proof (cases ?r)
    case (Panic a)
    then have "final (processNamespace E ord nsv st) = snd a"
      by (simp add: processNamespace_def Let_def currIdxOf_def)
    with assms ri Panic show ?thesis by (auto simp: riLookup_def)
  next
    case (Normal a)
    then have fin: "final (processNamespace E ord nsv st)
          = (snd a)\<lparr>resourceIndex := (resourceIndex (snd a))(fst nsv \<mapsto> fst a)\<rparr>"
      by (simp add: processNamespace_def Let_def currIdxOf_def)
    show ?thesis
    proof (cases "ns = fst nsv")
      case False
      with assms fin ri Normal show ?thesis by (auto simp: riLookup_def)
    next
      case True
      with assms fin have "fst a name = Some q" by (auto simp: riLookup_def)
      then have "fst (final ?r) name = Some q" using Normal by simp
      from consumersLoop_newIdx[OF this] show ?thesis
        using Normal fin True by (auto simp: currIdxOf_riLookup)
    qed
  qed
qed

lemma namespacesLoop_invariant:
  assumes "P st"
      and "\<And>nsv s. nsv \<in> set xs \<Longrightarrow> P s \<Longrightarrow> P (final (processNamespace E ord nsv s))"
  shows "P (final (namespacesLoop E ord xs st))"
  using assms
proof (induction xs arbitrary: st)
  case Nil
  then show ?case by simp
next
  case (Cons nsv xs)
  have step: "P (final (processNamespace E ord nsv st))"
    using Cons.prems by simp
  show ?case
  proof (cases "processNamespace E ord nsv st")
    case (Normal s)
    with step have "P s" by simp
    then have "P (final (namespacesLoop E ord xs s))"
      using Cons.prems(2) by (intro Cons.IH) auto
    with Normal show ?thesis by simp
  next
    case (Panic s)
    with step show ?thesis by simp
  qed
qed

lemma namespacesLoop_append:
  "namespacesLoop E ord (xs @ ys) st =
     (case namespacesLoop E ord xs st of
        Panic s \<Rightarrow> Panic s | Normal s \<Rightarrow> namespacesLoop E ord ys s)"
  by (induction xs arbitrary: st) (auto split: outcome.splits)

lemma namespacesLoop_evolves: "evolves st (final (namespacesLoop E ord xs st))"
  by (rule namespacesLoop_invariant[where P = "\<lambda>s. evolves st s"])
     (auto intro: evolves_trans processNamespace_evolves)

lemma namespacesLoop_other:
  "ns \<notin> fst ` set xs \<Longrightarrow> resourceIndex (final (namespacesLoop E ord xs st)) ns = resourceIndex st ns"
proof (rule namespacesLoop_invariant[where P = "\<lambda>s. resourceIndex s ns = resourceIndex st ns"], goal_cases)
  case 1
  then show ?case by simp
next
  case (2 nsv s)
  then have "ns \<noteq> fst nsv" by auto
  then show ?case using 2 by (simp add: processNamespace_other)
qed

lemma namespacesLoop_provenance:
  assumes "riLookup (final (namespacesLoop E ord xs st)) ns name = Some q"
  shows "riLookup st ns name = Some q \<or>
         (nextAddr st \<le> q \<and> q < nextAddr (final (namespacesLoop E ord xs st)))"
proof -
  let ?P = "\<lambda>s. evolves st s \<and> (\<forall>ns name q. riLookup s ns name = Some q \<longrightarrow>
     riLookup st ns name = Some q \<or> (nextAddr st \<le> q \<and> q < nextAddr s))"
  have "?P (final (namespacesLoop E ord xs st))"
  proof (rule namespacesLoop_invariant[where P = ?P], goal_cases)
    case 1
    then show ?case by simp
  next
    case (2 nsv s)
    let ?s' = "final (processNamespace E ord nsv s)"
    have ev: "evolves s ?s'" by (rule processNamespace_evolves)
    have "evolves st ?s'" using 2 ev by (blast intro: evolves_trans)
    moreover have "riLookup st n nm = Some q' \<or> (nextAddr st \<le> q' \<and> q' < nextAddr ?s')"
      if "riLookup ?s' n nm = Some q'" for n nm q'
      using processNamespace_provenance[OF that] 2 ev
      by (fastforce simp: evolves_def)
    ultimately show ?case by blast
  qed
  with assms show ?thesis by blast
qed

lemma rebuildScopeIndex_fields [simp]:
  "resourceIndex (rebuildScopeIndex E ord st) = resourceIndex st"
  "heap (rebuildScopeIndex E ord st) = heap st"
  "nextAddr (rebuildScopeIndex E ord st) = nextAddr st"
  by (simp_all add: rebuildScopeIndex_def Let_def)

lemma final_updateConsumers:
  "resourceIndex (final (updateConsumers E ord snapshot st)) = resourceIndex (final (ri_phase E ord snapshot st))"
  "heap (final (updateConsumers E ord snapshot st)) = heap (final (ri_phase E ord snapshot st))"
  "nextAddr (final (updateConsumers E ord snapshot st)) = nextAddr (final (ri_phase E ord snapshot st))"
  by (auto simp: updateConsumers_def ri_phase_def split: outcome.splits)

lemma boundedD: "bounded st \<Longrightarrow> riLookup st ns name = Some p \<Longrightarrow> p < nextAddr st"
  unfolding bounded_def by blast

lemma wf_state_bounded: "wf_state st \<Longrightarrow> bounded st"
  by (simp add: wf_state_def)

lemma wf_state_inj:
  "wf_state st \<Longrightarrow> riLookup st ns name = Some p \<Longrightarrow> riLookup st ns' name' = Some p
     \<Longrightarrow> ns' = ns \<and> name' = name"
  unfolding wf_state_def by blast

lemma bounded_step:
  assumes b: "bounded st" and ev: "evolves st st'"
    and prov: "\<And>ns name q. riLookup st' ns name = Some q \<Longrightarrow>
         riLookup st ns name = Some q \<or> (nextAddr st \<le> q \<and> q < nextAddr st')"
  shows "bounded st'"
  unfolding bounded_def
proof (intro allI impI)
  fix ns name p
  assume a: "riLookup st' ns name = Some p"
  have le: "nextAddr st \<le> nextAddr st'" using ev by (simp add: evolves_def)
  from prov[OF a] show "p < nextAddr st'"
  proof
    assume "riLookup st ns name = Some p"
    then have "p < nextAddr st" using b boundedD by blast
    with le show ?thesis by simp
  qed simp
qed

lemma namespacesLoop_bounded:
  "bounded st \<Longrightarrow> bounded (final (namespacesLoop E ord xs st))"
  by (rule bounded_step[OF _ namespacesLoop_evolves]) (auto dest: namespacesLoop_provenance)

lemma processEntry_cases:
  obtains
    (reuse) p where
      "reusable st currIdx (fst nv) (entryVersion (snd nv)) = Some p"
      "processEntry E ord ns currIdx nv (newIdx, st) = Normal (newIdx(fst nv \<mapsto> p), st)"
  | (create) st' where
      "reusable st currIdx (fst nv) (entryVersion (snd nv)) = None"
      "processEntry E ord ns currIdx nv (newIdx, st) = Normal (newIdx(fst nv \<mapsto> nextAddr st), st')"
      "nextAddr st' = Suc (nextAddr st)"
      "resourceIndex st' = resourceIndex st"
      "scopeIndex st' = scopeIndex st"
      "\<forall>p. p \<noteq> nextAddr st \<longrightarrow> heap st' p = heap st p"
      "resourceVersion (heap st' (nextAddr st)) = entryVersion (snd nv)"
  | (skip) st' where
      "reusable st currIdx (fst nv) (entryVersion (snd nv)) = None"
      "final (processEntry E ord ns currIdx nv (newIdx, st)) = (newIdx, st')"
      "nextAddr st' = nextAddr st"
      "resourceIndex st' = resourceIndex st"
      "scopeIndex st' = scopeIndex st"
      "heap st' = heap st"
proof (cases "reusable st currIdx (fst nv) (entryVersion (snd nv))")
  case (Some p)
  then show ?thesis
    by (intro reuse[of p]) (simp_all add: processEntry_def Let_def entryVersion_def)
next
  case None
  show ?thesis
  proof (cases "Unmarshal E (entryBody (snd nv)) (zeroConsumer :: ('a, 'b, 'c, 'd) Consumer)")
    case (Inl e)
    with None show ?thesis
      by (intro skip[of "snd (final (processEntry E ord ns currIdx nv (newIdx, st)))"]) (simp_all add: processEntry_def Let_def entryVersion_def entryBody_def)
  next
    case (Inr c0)
    show ?thesis
    proof (cases "snd (InitConfigs E (authPlugins ord ns (fst nv)) (filterPlugins ord ns (fst nv))
                    (c0\<lparr>namespace := ns\<rparr>))")
      case (Ok c1)
      with None Inr show ?thesis
        by (intro create[of "snd (final (processEntry E ord ns currIdx nv (newIdx, st)))"]) (simp_all add: processEntry_def Let_def entryVersion_def entryBody_def)
    next
      case (Err e)
      with None Inr show ?thesis
        by (intro skip[of "snd (final (processEntry E ord ns currIdx nv (newIdx, st)))"]) (simp_all add: processEntry_def Let_def entryVersion_def entryBody_def)
    next
      case NilPointerPanic
      with None Inr show ?thesis
        by (intro skip[of "snd (final (processEntry E ord ns currIdx nv (newIdx, st)))"]) (simp_all add: processEntry_def Let_def entryVersion_def entryBody_def)
    qed
  qed
qed

lemma processEntry_fresh_inj:
  assumes inv: "\<forall>name q. fst acc name = Some q \<longrightarrow> q < nextAddr (snd acc)"
      and cur: "\<forall>name q. currIdx name = Some q \<longrightarrow> q < n0"
      and n0: "n0 \<le> nextAddr (snd acc)"
      and inj: "\<forall>name name' q. fst acc name = Some q \<longrightarrow> fst acc name' = Some q \<longrightarrow> n0 \<le> q \<longrightarrow> name' = name"
  shows "(\<forall>name q. fst (final (processEntry E ord ns currIdx nv acc)) name = Some q
             \<longrightarrow> q < nextAddr (snd (final (processEntry E ord ns currIdx nv acc)))) \<and>
         (\<forall>name name' q. fst (final (processEntry E ord ns currIdx nv acc)) name = Some q \<longrightarrow>
             fst (final (processEntry E ord ns currIdx nv acc)) name' = Some q \<longrightarrow> n0 \<le> q \<longrightarrow> name' = name)"
proof (cases acc)
  case (Pair newIdx st)
  show ?thesis
  proof (cases rule: processEntry_cases[of st currIdx nv E ord ns newIdx])
    case (reuse p)
    have p: "p < n0" using reuse(1) cur by (auto simp: reusable_def split: option.splits if_splits)
    show ?thesis using inv inj n0 p unfolding Pair reuse(2) by (auto split: if_splits)
  next
    case (create st')
    have a: "q < nextAddr st" if "newIdx name = Some q" for name q
      using inv that Pair by auto
    show ?thesis unfolding Pair create(2) using inj Pair create(3) a
      by (auto simp: less_Suc_eq split: if_splits dest: a)
  next
    case (skip st')
    then show ?thesis using inv inj n0 Pair by auto
  qed
qed

lemma consumersLoop_fresh_inj:
  assumes cur: "\<forall>name q. currIdx name = Some q \<longrightarrow> q < nextAddr st"
  shows "(\<forall>name q. fst (final (consumersLoop E ord ns currIdx xs (Map.empty, st))) name = Some q
             \<longrightarrow> q < nextAddr (snd (final (consumersLoop E ord ns currIdx xs (Map.empty, st))))) \<and>
         (\<forall>name name' q. fst (final (consumersLoop E ord ns currIdx xs (Map.empty, st))) name = Some q \<longrightarrow>
             fst (final (consumersLoop E ord ns currIdx xs (Map.empty, st))) name' = Some q \<longrightarrow>
             nextAddr st \<le> q \<longrightarrow> name' = name)"
proof -
  let ?P = "\<lambda>a. nextAddr st \<le> nextAddr (snd a) \<and> (\<forall>name q. fst a name = Some q \<longrightarrow> q < nextAddr (snd a)) \<and>
      (\<forall>name name' q. fst a name = Some q \<longrightarrow> fst a name' = Some q \<longrightarrow> nextAddr st \<le> q \<longrightarrow> name' = name)"
  have "?P (final (consumersLoop E ord ns currIdx xs (Map.empty, st)))"
  proof (rule consumersLoop_invariant[where P = ?P], goal_cases)
    case 1
    then show ?case by simp
  next
    case (2 nv a)
    have "nextAddr (snd a) \<le> nextAddr (snd (final (processEntry E ord ns currIdx nv a)))"
      using processEntry_evolves[of a E ord ns currIdx nv] by (simp add: evolves_def)
    then show ?case
      using processEntry_fresh_inj[of a currIdx "nextAddr st" E ord ns nv] 2 cur by simp
  qed
  then show ?thesis by simp
qed

lemma wf_state_step:
  assumes wf: "wf_state st" and ev: "evolves st st'"
    and prov: "\<And>ns name q. riLookup st' ns name = Some q \<Longrightarrow>
         riLookup st ns name = Some q \<or> (nextAddr st \<le> q \<and> q < nextAddr st')"
    and fresh_inj: "\<And>ns name ns' name' q. riLookup st' ns name = Some q \<Longrightarrow>
          riLookup st' ns' name' = Some q \<Longrightarrow> nextAddr st \<le> q \<Longrightarrow> ns' = ns \<and> name' = name"
  shows "wf_state st'"
  unfolding wf_state_def
proof (intro conjI allI impI)
  show "bounded st'"
    by (rule bounded_step[OF wf_state_bounded[OF wf] ev prov])
next
  fix ns name ns' name' p
  assume a: "riLookup st' ns name = Some p" and b: "riLookup st' ns' name' = Some p"
  have "ns' = ns \<and> name' = name"
  proof (cases "nextAddr st \<le> p")
    case True
    show ?thesis by (rule fresh_inj[OF a b True])
  next
    case False
    with prov[OF a] have m0: "riLookup st ns name = Some p" by auto
    from False prov[OF b] have m1: "riLookup st ns' name' = Some p" by auto
    show ?thesis by (rule wf_state_inj[OF wf m0 m1])
  qed
  then show "ns' = ns" "name' = name" by simp_all
qed

lemma processNamespace_riLookup:
  "riLookup (final (processNamespace E ord nsv st)) ns name =
     (case processNamespace E ord nsv st of
        Panic s \<Rightarrow> riLookup st ns name
      | Normal s \<Rightarrow>
          if ns = fst nsv
          then fst (final (consumersLoop E ord (fst nsv) (currIdxOf st (fst nsv))
                 (range_go (snapshotConsumers ord (fst nsv)) (GetStructFields (snd nsv))) (Map.empty, st))) name
          else riLookup st ns name)"
  using consumersLoop_resourceIndex[of E ord "fst nsv" "currIdxOf st (fst nsv)"
          "range_go (snapshotConsumers ord (fst nsv)) (GetStructFields (snd nsv))" "(Map.empty, st)"]
  by (auto simp: processNamespace_def Let_def currIdxOf_def riLookup_def split: outcome.splits)

lemma processNamespace_wf:
  assumes wf: "wf_state st"
  shows "wf_state (final (processNamespace E ord nsv st))"
proof (rule wf_state_step[OF wf processNamespace_evolves])
  fix ns name q
  assume "riLookup (final (processNamespace E ord nsv st)) ns name = Some q"
  then show "riLookup st ns name = Some q \<or>
       nextAddr st \<le> q \<and> q < nextAddr (final (processNamespace E ord nsv st))"
    by (rule processNamespace_provenance)
next
  fix ns name ns' name' q
  let ?a = "final (consumersLoop E ord (fst nsv) (currIdxOf st (fst nsv))
                 (range_go (snapshotConsumers ord (fst nsv)) (GetStructFields (snd nsv))) (Map.empty, st))"
  assume a: "riLookup (final (processNamespace E ord nsv st)) ns name = Some q"
     and b: "riLookup (final (processNamespace E ord nsv st)) ns' name' = Some q"
     and fresh: "nextAddr st \<le> q"
  have old: "riLookup st n nm \<noteq> Some q" for n nm
    using boundedD[OF wf_state_bounded[OF wf], of n nm q] fresh by auto
  have cur: "\<forall>name q. currIdxOf st (fst nsv) name = Some q \<longrightarrow> q < nextAddr st"
    using boundedD[OF wf_state_bounded[OF wf]] by (auto simp: currIdxOf_riLookup)
  from a old have a': "ns = fst nsv \<and> fst ?a name = Some q"
    by (auto simp: processNamespace_riLookup split: outcome.splits if_splits)
  from b old have b': "ns' = fst nsv \<and> fst ?a name' = Some q"
    by (auto simp: processNamespace_riLookup split: outcome.splits if_splits)
  from consumersLoop_fresh_inj[OF cur, of E ord "fst nsv"
        "range_go (snapshotConsumers ord (fst nsv)) (GetStructFields (snd nsv))"] a' b' fresh
  show "ns' = ns \<and> name' = name" by blast
qed

lemma namespacesLoop_wf:
  "wf_state st \<Longrightarrow> wf_state (final (namespacesLoop E ord xs st))"
  by (rule namespacesLoop_invariant[where P = wf_state]) (auto intro: processNamespace_wf)

lemma riLookup_rebuildScopeIndex [simp]:
  "riLookup (rebuildScopeIndex E ord st) = riLookup st"
  by (simp add: riLookup_def fun_eq_iff)

lemma wf_state_rebuildScopeIndex [simp]:
  "wf_state (rebuildScopeIndex E ord st) = wf_state st"
  by (simp add: wf_state_def bounded_def)

lemma updateConsumers_wf:
  "wf_state st \<Longrightarrow> wf_state (final (updateConsumers E ord snapshot st))"
  using namespacesLoop_wf[of st E ord "range_go (snapshotNamespaces ord) snapshot"]
  by (auto simp: updateConsumers_def split: outcome.splits)

lemma wf_state_initialState: "wf_state initialState"
  by (simp add: wf_state_def bounded_def riLookup_def initialState_def)

subsection \<open>Evaluating the model\<close>

lemmas demo_defs = demoSnapshot_def demoOrder_def demoEnv_def entry_def demoParse_def demoRender_def
  aliceText_def aliceDoc_def bobText_def bobDoc_def carolText_def carolDoc_def daveText_def daveDoc_def eveText_def eveDoc_def

lemmas model_defs = updateConsumers_def range_go_def processNamespace_def processEntry_def
  GetStructFields_def GetStringValue_def reusable_def Unmarshal_def jsonUnmarshal_def
  unmarshalMember_def fieldOf_def entries_def InitConfigs_def zeroConsumer_def
  rebuildScopeIndex_def indexPlugin_def initialState_def LookupConsumer_def

lemma demoState_wf: "wf_state demoState"
  unfolding demoState_def by (rule updateConsumers_wf[OF wf_state_initialState])

subsection \<open>The scope index\<close>

lemma look_indexPlugin:
  "look (fst (indexPlugin E st ns p pc acc)) pl k =
     (case look (fst acc) pl k of
        Some q \<Rightarrow> Some q
      | None \<Rightarrow> if pl = fst pc \<and> Index E (snd pc) = k then Some p else None)"
  by (cases acc) (auto simp: indexPlugin_def look_def Let_def split: option.splits)

lemma look_pluginsLoop:
  "look (fst (pluginsLoop E st ns p cfgs acc)) pl k =
     (case look (fst acc) pl k of
        Some q \<Rightarrow> Some q
      | None \<Rightarrow> if \<exists>cfg. (pl, cfg) \<in> set cfgs \<and> Index E cfg = k then Some p else None)"
proof (induction cfgs arbitrary: acc)
  case Nil
  then show ?case by (simp split: option.splits)
next
  case (Cons pc cfgs)
  show ?case
    unfolding pluginsLoop.simps Cons.IH look_indexPlugin
    by (cases pc) (auto split: option.splits)
qed

lemma look_consumerStep:
  "look (fst (pluginsLoop E st ns (snd np)
          (range_go (configPlugins ord ns (fst np)) (entries (ConsumerConfigs (heap st (snd np))))) acc)) pl k =
     (case look (fst acc) pl k of
        Some q \<Rightarrow> Some q
      | None \<Rightarrow> if writes E ord st ns pl k np then Some (snd np) else None)"
  unfolding look_pluginsLoop
  by (auto simp: set_range_go writes_def produces_def split: option.splits)

lemma look_scopeConsumersLoop:
  "look (fst (scopeConsumersLoop E ord st ns nps acc)) pl k =
     (case look (fst acc) pl k of
        Some q \<Rightarrow> Some q
      | None \<Rightarrow> map_option snd (find (writes E ord st ns pl k) nps))"
proof (induction nps arbitrary: acc)
  case Nil
  then show ?case by (simp split: option.splits)
next
  case (Cons np nps)
  show ?case
    unfolding scopeConsumersLoop.simps Cons.IH look_consumerStep
    by (auto split: option.splits)
qed

lemma fst_indexPlugin_log:
  "fst (indexPlugin E st ns p pc (idx, lg)) = fst (indexPlugin E st ns p pc (idx, lg'))"
  by (auto simp: indexPlugin_def Let_def split: option.splits)

lemma fst_pluginsLoop_log:
  "fst (pluginsLoop E st ns p cfgs (idx, lg)) = fst (pluginsLoop E st ns p cfgs (idx, lg'))"
proof (induction cfgs arbitrary: idx lg lg')
  case Nil
  then show ?case by simp
next
  case (Cons pc cfgs)
  obtain i1 l1 where a: "indexPlugin E st ns p pc (idx, lg) = (i1, l1)" by (cases "indexPlugin E st ns p pc (idx, lg)")
  obtain i2 l2 where b: "indexPlugin E st ns p pc (idx, lg') = (i2, l2)" by (cases "indexPlugin E st ns p pc (idx, lg')")
  have "i1 = i2" using fst_indexPlugin_log[of E st ns p pc idx lg lg'] a b by simp
  then show ?case using Cons.IH[of i1 l1 l2] a b by simp
qed

lemma fst_scopeConsumersLoop_log:
  "fst (scopeConsumersLoop E ord st ns nps (idx, lg)) = fst (scopeConsumersLoop E ord st ns nps (idx, lg'))"
proof (induction nps arbitrary: idx lg lg')
  case Nil
  then show ?case by simp
next
  case (Cons np nps)
  let ?f = "\<lambda>l. pluginsLoop E st ns (snd np)
          (range_go (configPlugins ord ns (fst np)) (entries (ConsumerConfigs (heap st (snd np))))) (idx, l)"
  obtain i1 l1 where a: "?f lg = (i1, l1)" by (cases "?f lg")
  obtain i2 l2 where b: "?f lg' = (i2, l2)" by (cases "?f lg'")
  have "fst (?f lg) = fst (?f lg')" by (rule fst_pluginsLoop_log)
  then have "i1 = i2" using a b by simp
  then show ?case using Cons.IH[of i1 l1 l2] a b by simp
qed

lemma fst_scopeNamespacesLoop:
  assumes "\<forall>nm \<in> set nms. ri (fst nm) = Some (snd nm)"
  shows "fst (scopeNamespacesLoop E ord st nms acc) ns =
     (if ns \<in> fst ` set nms then map_option (nsScope E ord st ns) (ri ns) else fst acc ns)"
  using assms
proof (induction nms arbitrary: acc)
  case Nil
  then show ?case by simp
next
  case (Cons nm nms)
  have nm: "ri (fst nm) = Some (snd nm)" using Cons.prems by simp
  have eq: "fst (scopeConsumersLoop E ord st (fst nm) (range_go (indexConsumers ord (fst nm)) (snd nm)) (Map.empty, snd acc))
        = nsScope E ord st (fst nm) (snd nm)"
    unfolding nsScope_def by (rule fst_scopeConsumersLoop_log)
  show ?case
    using Cons.prems nm eq by (simp add: Cons.IH Let_def)
qed

lemma look_nsScope:
  "look (nsScope E ord st ns m) pl k =
     map_option snd (find (writes E ord st ns pl k) (range_go (indexConsumers ord ns) m))"
  unfolding nsScope_def look_scopeConsumersLoop by (simp add: look_def)

lemma scopeIndex_rebuildScopeIndex:
  "scopeIndex (rebuildScopeIndex E ord st) =
     Some (\<lambda>ns. if ns \<in> set (indexNamespaces ord) then map_option (nsScope E ord st ns) (resourceIndex st ns) else None)"
proof -
  let ?nms = "range_go (indexNamespaces ord) (resourceIndex st)"
  have a: "\<forall>nm \<in> set ?nms. resourceIndex st (fst nm) = Some (snd nm)"
    by (auto simp: set_range_go)
  have b: "ns \<in> fst ` set ?nms \<longleftrightarrow> ns \<in> set (indexNamespaces ord) \<and> resourceIndex st ns \<noteq> None" for ns
    by (force simp: set_range_go)
  show ?thesis
    unfolding rebuildScopeIndex_def Let_def
    by (auto simp: fst_scopeNamespacesLoop[OF a] b fun_eq_iff)
qed

lemma LookupConsumer_look:
  "LookupConsumer st ns pl k =
     (case entries (scopeIndex st) ns of
        None \<Rightarrow> (None, False)
      | Some nsIdx \<Rightarrow> (case look nsIdx pl k of None \<Rightarrow> (None, False) | Some c \<Rightarrow> (Some c, True)))"
  by (simp add: LookupConsumer_def look_def split: option.splits)

lemma LookupConsumer_rebuildScopeIndex:
  "LookupConsumer (rebuildScopeIndex E ord st) ns pl k =
     (if ns \<in> set (indexNamespaces ord) then
        (case resourceIndex st ns of
           None \<Rightarrow> (None, False)
         | Some m \<Rightarrow>
             (case find (writes E ord st ns pl k) (range_go (indexConsumers ord ns) m) of
                None \<Rightarrow> (None, False)
              | Some np \<Rightarrow> (Some (snd np), True)))
      else (None, False))"
  by (simp add: LookupConsumer_look scopeIndex_rebuildScopeIndex entries_def look_nsScope
           split: option.splits)












subsection \<open>A namespace of the snapshot\<close>

lemma range_go_last:
  assumes "k \<in> set ks" and "m k = Some v"
  obtains pre post where "range_go ks m = pre @ (k, v) # post" and "k \<notin> fst ` set post"
proof -
  have "(k, v) \<in> set (range_go ks m)" using assms by (simp add: set_range_go)
  from split_list_last[OF this] obtain pre post where
    sp: "range_go ks m = pre @ (k, v) # post" and np: "(k, v) \<notin> set post" by blast
  have "set post \<subseteq> set (range_go ks m)" using sp by auto
  then have "k \<notin> fst ` set post" using np assms(2) by (auto simp: set_range_go)
  with sp show ?thesis by (rule that)
qed

lemma namespacesLoop_Normal_append:
  assumes "namespacesLoop E ord (xs @ ys) st = Normal st'"
  obtains s where "namespacesLoop E ord xs st = Normal s" and "namespacesLoop E ord ys s = Normal st'"
  using assms by (auto simp: namespacesLoop_append split: outcome.splits)

lemma consumersLoop_Normal_append:
  assumes "consumersLoop E ord ns currIdx (xs @ ys) acc = Normal a'"
  obtains a where "consumersLoop E ord ns currIdx xs acc = Normal a"
    and "consumersLoop E ord ns currIdx ys a = Normal a'"
  using assms by (auto simp: consumersLoop_append split: outcome.splits)

text \<open>The last visit of a namespace decides its entry.\<close>

lemma ri_phase_visited:
  assumes run: "ri_phase E ord snapshot st = Normal st'"
      and ns: "ns \<in> set (snapshotNamespaces ord)" and nsv: "snapshot ns = Some nsv"
  obtains s a where
      "evolves st s" and "wf_state st \<longrightarrow> wf_state s"
      and "consumersLoop E ord ns (currIdxOf s ns)
             (range_go (snapshotConsumers ord ns) (GetStructFields nsv)) (Map.empty, s) = Normal a"
      and "resourceIndex st' ns = Some (fst a)" and "evolves (snd a) st'"
proof -
  from range_go_last[of ns "snapshotNamespaces ord" snapshot nsv, OF ns nsv] obtain pre post where
    sp: "range_go (snapshotNamespaces ord) snapshot = pre @ (ns, nsv) # post"
    and np: "ns \<notin> fst ` set post" by blast
  from run[unfolded ri_phase_def sp] obtain s where
    s: "namespacesLoop E ord pre st = Normal s"
    and rest: "namespacesLoop E ord ((ns, nsv) # post) s = Normal st'"
    by (rule namespacesLoop_Normal_append)
  from rest obtain s2 where s2: "processNamespace E ord (ns, nsv) s = Normal s2"
    and post: "namespacesLoop E ord post s2 = Normal st'"
    by (auto split: outcome.splits)
  let ?xs = "range_go (snapshotConsumers ord ns) (GetStructFields nsv)"
  from s2 obtain a where a: "consumersLoop E ord ns (currIdxOf s ns) ?xs (Map.empty, s) = Normal a"
    and s2eq: "s2 = (snd a)\<lparr>resourceIndex := (resourceIndex (snd a))(ns \<mapsto> fst a)\<rparr>"
    by (auto simp: processNamespace_def Let_def currIdxOf_def split: outcome.splits)
  have ev1: "evolves st s" using namespacesLoop_evolves[of st E ord pre] s by simp
  have wf1: "wf_state st \<longrightarrow> wf_state s" using namespacesLoop_wf[of st E ord pre] s by simp
  have "resourceIndex st' ns = resourceIndex s2 ns"
    using namespacesLoop_other[OF np, of E ord s2] post by simp
  then have ri: "resourceIndex st' ns = Some (fst a)" by (simp add: s2eq)
  have "evolves s2 st'" using namespacesLoop_evolves[of s2 E ord post] post by simp
  then have ev2: "evolves (snd a) st'" by (simp add: s2eq evolves_def)
  show ?thesis by (rule that[OF ev1 wf1 a ri ev2])
qed

lemma updateConsumers_Normal:
  assumes "updateConsumers E ord snapshot st = Normal st'"
  obtains s where "ri_phase E ord snapshot st = Normal s" and "st' = rebuildScopeIndex E ord s"
  using assms by (auto simp: updateConsumers_def ri_phase_def split: outcome.splits)

lemma riLookup_Some: "resourceIndex st ns = Some m \<Longrightarrow> riLookup st ns name = m name"
  by (simp add: riLookup_def)

lemma find_SomeD: "find P xs = Some x \<Longrightarrow> x \<in> set xs \<and> P x"
  by (induction xs) (auto split: if_splits)

lemma LookupConsumer_indexed:
  assumes "LookupConsumer (rebuildScopeIndex E ord s) ns pl k = (Some q, b)"
  shows "\<exists>name. riLookup s ns name = Some q \<and> writes E ord s ns pl k (name, q)"
proof -
  from assms obtain m np where m: "resourceIndex s ns = Some m"
    and f: "find (writes E ord s ns pl k) (range_go (indexConsumers ord ns) m) = Some np"
    and q: "q = snd np"
    by (auto simp: LookupConsumer_rebuildScopeIndex split: if_splits option.splits)
  from find_SomeD[OF f] have mem: "np \<in> set (range_go (indexConsumers ord ns) m)"
    and w: "writes E ord s ns pl k np"
    by simp_all
  obtain n p where np: "np = (n, p)" by (cases np)
  have "m n = Some p" using mem unfolding np by (simp add: set_range_go)
  with m q w show ?thesis unfolding np by (auto simp: riLookup_Some)
qed

subsection \<open>Reuse and version stamps\<close>

lemma reusable_evolves:
  assumes "evolves st s" and "currIdx name = Some p" and "p < nextAddr st"
  shows "reusable s currIdx name v = (if resourceVersion (heap st p) = v then Some p else None)"
  using assms by (auto simp: reusable_def evolves_def)

lemma processEntry_reuse:
  "reusable st currIdx (fst nv) (entryVersion (snd nv)) = Some p \<Longrightarrow>
     processEntry E ord ns currIdx nv (newIdx, st) = Normal (newIdx(fst nv \<mapsto> p), st)"
  by (simp add: processEntry_def Let_def entryVersion_def)

text \<open>An entry whose version is the one stored is inserted as the Consumer there is.\<close>

lemma consumersLoop_reuse:
  assumes "consumersLoop E ord ns currIdx xs acc = Normal a"
      and "(name, e) \<in> set xs"
      and "\<forall>e'. (name, e') \<in> set xs \<longrightarrow> entryVersion e' = v"
      and "currIdx name = Some p" and "p < nextAddr st" and "resourceVersion (heap st p) = v"
      and "evolves st (snd acc)"
  shows "fst a name = Some p"
  using assms(1,2,3,7)
proof (induction xs arbitrary: acc e)
  case Nil
  then show ?case by simp
next
  case (Cons nv xs)
  from Cons.prems(1) obtain a1 where a1: "processEntry E ord ns currIdx nv acc = Normal a1"
    and rest: "consumersLoop E ord ns currIdx xs a1 = Normal a"
    by (auto split: outcome.splits)
  have ev1: "evolves st (snd a1)"
    using processEntry_evolves[of acc E ord ns currIdx nv] a1 Cons.prems(4)
    by (auto intro: evolves_trans)
  show ?case
  proof (cases "name \<in> fst ` set xs")
    case True
    then obtain e' where e': "(name, e') \<in> set xs" by force
    show ?thesis by (rule Cons.IH[OF rest e' _ ev1]) (use Cons.prems(3) in auto)
  next
    case False
    with Cons.prems(2) have nv: "nv = (name, e)" by force
    have "reusable (snd acc) currIdx name (entryVersion e) = Some p"
      using reusable_evolves[where st = st and s = "snd acc" and currIdx = currIdx and name = name
          and p = p and v = "entryVersion e", OF Cons.prems(4) assms(4,5)] assms(6) Cons.prems(3) nv
      by auto
    then have "processEntry E ord ns currIdx nv (fst acc, snd acc) = Normal ((fst acc)(name \<mapsto> p), snd acc)"
      using processEntry_reuse[of "snd acc" currIdx nv p E ord ns "fst acc"] nv by simp
    with a1 have "fst a1 name = Some p" by auto
    then show ?thesis
      using consumersLoop_other[OF False, of E ord ns currIdx a1] rest by simp
  qed
qed

text \<open>Every Consumer inserted for a namespace carries the version of its snapshot entry.\<close>

lemma consumersLoop_stamped:
  assumes cur: "\<forall>name q. currIdx name = Some q \<longrightarrow> q < nextAddr st"
      and xs: "\<forall>nv \<in> set xs. fm (fst nv) = Some (snd nv)"
  shows "\<forall>name q. fst (final (consumersLoop E ord ns currIdx xs (Map.empty, st))) name = Some q \<longrightarrow>
           q < nextAddr (snd (final (consumersLoop E ord ns currIdx xs (Map.empty, st)))) \<and>
           (\<exists>e. fm name = Some e \<and>
              resourceVersion (heap (snd (final (consumersLoop E ord ns currIdx xs (Map.empty, st)))) q)
                = entryVersion e)"
proof -
  let ?P = "\<lambda>a. evolves st (snd a) \<and> (\<forall>name q. fst a name = Some q \<longrightarrow>
      q < nextAddr (snd a) \<and> (\<exists>e. fm name = Some e \<and> resourceVersion (heap (snd a) q) = entryVersion e))"
  have "?P (final (consumersLoop E ord ns currIdx xs (Map.empty, st)))"
  proof (rule consumersLoop_invariant[where P = ?P], goal_cases)
    case 1
    then show ?case by simp
  next
    case (2 nv a)
    obtain newIdx s where a: "a = (newIdx, s)" by (cases a)
    have ev: "evolves st s" using 2 a by simp
    have inv: "q < nextAddr s \<and> (\<exists>e. fm n = Some e \<and> resourceVersion (heap s q) = entryVersion e)"
      if "newIdx n = Some q" for n q using 2 a that by simp
    have fld: "fm (fst nv) = Some (snd nv)" using xs 2 by simp
    show ?case
    proof (cases rule: processEntry_cases[of s currIdx nv E ord ns newIdx])
      case (reuse p)
      then have p: "currIdx (fst nv) = Some p" "resourceVersion (heap s p) = entryVersion (snd nv)"
        by (auto simp: reusable_def split: option.splits if_splits)
      from p(1) cur have "p < nextAddr st" by blast
      moreover have "nextAddr st \<le> nextAddr s" using ev by (simp add: evolves_def)
      ultimately have "p < nextAddr s" by simp
      then show ?thesis unfolding a reuse(2) using ev inv p fld by auto
    next
      case (create s')
      have ev': "evolves st s'" using ev create by (auto simp: evolves_def)
      show ?thesis unfolding a create(2) using ev' inv create(3,6,7) fld
        by (auto simp: less_Suc_eq dest: inv)
    next
      case (skip s')
      have ev': "evolves st s'" using ev skip by (auto simp: evolves_def)
      show ?thesis unfolding a skip(2) using ev' inv skip by auto
    qed
  qed
  then show ?thesis by simp
qed

lemma range_go_mem_snd: "nv \<in> set (range_go ks m) \<Longrightarrow> m (fst nv) = Some (snd nv)"
  by (auto simp: set_range_go)

lemma updateConsumers_stamped:
  assumes wf: "wf_state st"
      and upd: "updateConsumers E ord snapshot st = Normal st'"
      and ns: "ns \<in> set (snapshotNamespaces ord)" and nsv: "snapshot ns = Some nsv"
      and q: "riLookup st' ns name = Some q"
  shows "\<exists>e. GetStructFields nsv name = Some e \<and> resourceVersion (heap st' q) = entryVersion e"
proof -
  from upd obtain s1 where run: "ri_phase E ord snapshot st = Normal s1"
    and st': "st' = rebuildScopeIndex E ord s1"
    by (rule updateConsumers_Normal)
  let ?xs = "range_go (snapshotConsumers ord ns) (GetStructFields nsv)"
  from ri_phase_visited[OF run ns nsv] obtain s a where
    wfs: "wf_state st \<longrightarrow> wf_state s"
    and a: "consumersLoop E ord ns (currIdxOf s ns) ?xs (Map.empty, s) = Normal a"
    and ri: "resourceIndex s1 ns = Some (fst a)" and ev: "evolves (snd a) s1" by blast
  have cur: "\<forall>name q. currIdxOf s ns name = Some q \<longrightarrow> q < nextAddr s"
    using boundedD[OF wf_state_bounded] wfs wf by (auto simp: currIdxOf_riLookup)
  have xs: "\<forall>nv \<in> set ?xs. GetStructFields nsv (fst nv) = Some (snd nv)"
    by (auto simp: set_range_go)
  have "fst a name = Some q" using q ri by (simp add: st' riLookup_Some)
  with consumersLoop_stamped[OF cur xs, of E ord ns] a
  obtain e where "q < nextAddr (snd a)" "GetStructFields nsv name = Some e"
    "resourceVersion (heap (snd a) q) = entryVersion e" by auto
  moreover from this(1) ev have "heap s1 q = heap (snd a) q" by (simp add: evolves_def)
  ultimately show ?thesis by (auto simp: st')
qed

lemma ri_phase_reuse:
  assumes b: "bounded st"
      and p: "riLookup st ns name = Some p"
      and v: "resourceVersion (heap st p) = entryVersion e"
      and nsv: "snapshot ns = Some nsv" and e: "GetStructFields nsv name = Some e"
      and name: "name \<in> set (snapshotConsumers ord ns)"
  shows "riLookup (final (ri_phase E ord snapshot st)) ns name = Some p \<and>
         evolves st (final (ri_phase E ord snapshot st))"
  unfolding ri_phase_def
proof (rule namespacesLoop_invariant[where P = "\<lambda>s. riLookup s ns name = Some p \<and> evolves st s"], goal_cases)
  case 1
  then show ?case using p by simp
next
  case (2 nsv' s)
  then have inv: "riLookup s ns name = Some p" and ev: "evolves st s" by simp_all
  have ev': "evolves st (final (processNamespace E ord nsv' s))"
    using ev processNamespace_evolves[of s E ord nsv'] by (blast intro: evolves_trans)
  have "riLookup (final (processNamespace E ord nsv' s)) ns name = Some p"
  proof (cases "processNamespace E ord nsv' s")
    case (Panic s')
    then show ?thesis using inv processNamespace_riLookup[of E ord nsv' s ns name] by simp
  next
    case (Normal s')
    show ?thesis
    proof (cases "ns = fst nsv'")
      case False
      then show ?thesis using inv Normal processNamespace_riLookup[of E ord nsv' s ns name] by simp
    next
      case True
      have snd: "snd nsv' = nsv" using range_go_mem_snd[OF 2(1)] nsv True by simp
      let ?xs = "range_go (snapshotConsumers ord ns) (GetStructFields nsv)"
      from Normal obtain a where
        a: "consumersLoop E ord ns (currIdxOf s ns) ?xs (Map.empty, s) = Normal a"
        using True snd
        by (auto simp: processNamespace_def Let_def currIdxOf_def split: outcome.splits)
      have mem: "(name, e) \<in> set ?xs" using name e by (simp add: set_range_go)
      have uniq: "\<forall>e'. (name, e') \<in> set ?xs \<longrightarrow> entryVersion e' = entryVersion e"
        using e by (auto simp: set_range_go)
      have cur: "currIdxOf s ns name = Some p" using inv by (simp add: currIdxOf_riLookup)
      have lt: "p < nextAddr st" by (rule boundedD[OF b p])
      have "fst a name = Some p"
        by (rule consumersLoop_reuse[where st = st, OF a mem uniq cur lt v]) (simp add: ev)
      then show ?thesis
        using Normal True a snd processNamespace_riLookup[of E ord nsv' s ns name] by simp
    qed
  qed
  with ev' show ?case by simp
qed

subsection \<open>Marshal and Unmarshal\<close>

lemma unmarshalAuth_strings:
  "unmarshalAuth (map (\<lambda>(k, s). (k, JString s)) xs) m0 = Inr (putAll xs m0)"
  by (induction xs arbitrary: m0) auto

lemma putAll_apply:
  "\<forall>kv \<in> set xs. m (fst kv) = Some (snd kv) \<Longrightarrow>
     putAll xs m0 k = (if k \<in> fst ` set xs then m k else m0 k)"
  by (induction xs arbitrary: m0) auto

lemma putAll_range_go:
  "enumerates ks m \<Longrightarrow> putAll (range_go ks m) Map.empty = m"
proof
  fix k
  assume en: "enumerates ks m"
  have a: "\<forall>kv \<in> set (range_go ks m). m (fst kv) = Some (snd kv)"
    by (auto simp: set_range_go)
  have "k \<in> fst ` set (range_go ks m) \<longleftrightarrow> m k \<noteq> None"
    using en by (force simp: set_range_go enumerates_def)
  then show "putAll (range_go ks m) Map.empty k = m k"
    by (simp add: putAll_apply[OF a])
qed

lemma unmarshalAuth_marshalAuth:
  assumes "enumerates ks m"
  shows "unmarshalAuth (map (\<lambda>(k, s). (k, JString s)) (range_go ks m)) Map.empty = Inr m"
  by (simp add: unmarshalAuth_strings putAll_range_go[OF assms])

lemma marshal_unmarshal_filters:
  assumes "\<forall>kf \<in> set xs. \<forall>f. snd kf = Some f \<longrightarrow> wellFormedFilter E f"
  shows "\<exists>js. marshalFilterEntries E xs = Inr js \<and> unmarshalFilters E js m0 = Inr (putAll xs m0)"
  using assms
proof (induction xs arbitrary: m0)
  case Nil
  then show ?case by simp
next
  case (Cons kf xs)
  obtain k f where kf: "kf = (k, f)" by (cases kf)
  from Cons.prems have rest: "\<forall>kf \<in> set xs. \<forall>f. snd kf = Some f \<longrightarrow> wellFormedFilter E f" by simp
  show ?case
  proof (cases f)
    case None
    from Cons.IH[OF rest] obtain js where "marshalFilterEntries E xs = Inr js"
      "unmarshalFilters E js (m0(k \<mapsto> None)) = Inr (putAll xs (m0(k \<mapsto> None)))"
      by blast
    then show ?thesis by (simp add: kf None)
  next
    case (Some g)
    then have "wellFormedFilter E g" using Cons.prems kf by simp
    then obtain j where j: "marshalFilterConfig E g = Inr j" "j \<noteq> JNull" "unmarshalFilterConfig E j = Inr g"
      by (auto simp: wellFormedFilter_def split: sum.splits)
    from Cons.IH[OF rest] obtain js where "marshalFilterEntries E xs = Inr js"
      "unmarshalFilters E js (m0(k \<mapsto> Some g)) = Inr (putAll xs (m0(k \<mapsto> Some g)))"
      by blast
    with j show ?thesis by (cases j) (simp_all add: kf Some)
  qed
qed

lemma fieldOf_exact [simp]:
  "fieldOf E ''name'' = Some FieldName" "fieldOf E ''auth'' = Some FieldAuth"
  "fieldOf E ''filters'' = Some FieldFilters"
  by (simp_all add: fieldOf_def)

lemma marshalFilters_roundtrip:
  assumes fks: "enumerates fks (entries (Filters c))"
      and wff: "\<forall>k f. entries (Filters c) k = Some (Some f) \<longrightarrow> wellFormedFilter E f"
      and c1: "Filters c1 = None"
  shows "\<exists>fj. marshalFilters E fks (Filters c) = Inr fj \<and>
      unmarshalMember E (''filters'', fj) c1 = Inr (c1\<lparr>Filters := Filters c\<rparr>)"
proof (cases "Filters c")
  case None
  then show ?thesis by (simp add: marshalFilters_def unmarshalMember_def)
next
  case (Some m)
  have wf: "\<forall>kf \<in> set (range_go fks m). \<forall>f. snd kf = Some f \<longrightarrow> wellFormedFilter E f"
    using wff Some by (auto simp: set_range_go entries_def)
  have en: "enumerates fks m" using fks Some by (simp add: entries_def)
  from marshal_unmarshal_filters[OF wf, of Map.empty]
  obtain js where js: "marshalFilterEntries E (range_go fks m) = Inr js"
    "unmarshalFilters E js Map.empty = Inr m"
    by (auto simp: putAll_range_go[OF en])
  then show ?thesis
    using Some c1 by (simp add: marshalFilters_def unmarshalMember_def entries_def)
qed

lemma marshalAuth_roundtrip:
  assumes aks: "enumerates aks (entries (Auth c))" and c1: "Auth c1 = None"
  shows "unmarshalMember E (''auth'', marshalAuth aks (Auth c)) c1 = Inr (c1\<lparr>Auth := Auth c\<rparr>)"
proof (cases "Auth c")
  case None
  then show ?thesis by (simp add: marshalAuth_def unmarshalMember_def)
next
  case (Some m)
  then have "enumerates aks m" using aks by (simp add: entries_def)
  from unmarshalAuth_marshalAuth[OF this] show ?thesis
    using Some c1 by (simp add: marshalAuth_def unmarshalMember_def entries_def)
qed

lemma roundtrip:
  assumes aks: "enumerates aks (entries (Auth c))" and fks: "enumerates fks (entries (Filters c))"
      and wff: "\<forall>k f. entries (Filters c) k = Some (Some f) \<longrightarrow> wellFormedFilter E f"
      and layer: "\<forall>j. jsonMarshal E aks fks c = Inr j \<longrightarrow> jsonParse E (jsonRender E j) = Some j"
      and c0: "Auth c0 = None" "Filters c0 = None"
  shows "\<exists>j. jsonMarshal E aks fks c = Inr j \<and> Marshal E aks fks c = jsonRender E j \<and>
           Unmarshal E (Marshal E aks fks c) c0 =
             Inr (c0\<lparr>ConsumerName := ConsumerName c, Auth := Auth c, Filters := Filters c\<rparr>)"
proof -
  let ?c1 = "c0\<lparr>ConsumerName := ConsumerName c\<rparr>"
  let ?c2 = "?c1\<lparr>Auth := Auth c\<rparr>"
  have n: "unmarshalMember E (''name'', JString (ConsumerName c)) c0 = Inr ?c1"
    by (simp add: unmarshalMember_def)
  have a: "unmarshalMember E (''auth'', marshalAuth aks (Auth c)) ?c1 = Inr ?c2"
    by (rule marshalAuth_roundtrip[OF aks]) (simp add: c0)
  from marshalFilters_roundtrip[OF fks wff, of ?c2] obtain fj where
    fj: "marshalFilters E fks (Filters c) = Inr fj"
      "unmarshalMember E (''filters'', fj) ?c2 = Inr (?c2\<lparr>Filters := Filters c\<rparr>)"
    using c0 by auto
  let ?j = "JObject [(''name'', JString (ConsumerName c)), (''auth'', marshalAuth aks (Auth c)),
                        (''filters'', fj)]"
  have jm: "jsonMarshal E aks fks c = Inr ?j" by (simp add: jsonMarshal_def fj)
  then have m: "Marshal E aks fks c = jsonRender E ?j" by (simp add: Marshal_def)
  have p: "jsonParse E (jsonRender E ?j) = Some ?j" using layer jm by simp
  have "Unmarshal E (jsonRender E ?j) c0 = Inr (?c2\<lparr>Filters := Filters c\<rparr>)"
    by (simp add: Unmarshal_def p jsonUnmarshal_def n a fj)
  with jm m show ?thesis by simp
qed

lemma unmarshalMember_keeps:
  "unmarshalMember E kv c = Inr c' \<Longrightarrow>
     namespace c' = namespace c \<and> resourceVersion c' = resourceVersion c \<and>
     ConsumerConfigs c' = ConsumerConfigs c \<and> FilterConfigs c' = FilterConfigs c"
  by (auto simp: unmarshalMember_def split: option.splits field.splits json.splits sum.splits)

lemma unmarshalMembers_keeps:
  "unmarshalMembers E ms c = Inr c' \<Longrightarrow>
     namespace c' = namespace c \<and> resourceVersion c' = resourceVersion c \<and>
     ConsumerConfigs c' = ConsumerConfigs c \<and> FilterConfigs c' = FilterConfigs c"
proof (induction ms arbitrary: c)
  case Nil
  then show ?case by simp
next
  case (Cons kv ms)
  then obtain c1 where c1: "unmarshalMember E kv c = Inr c1" and rest: "unmarshalMembers E ms c1 = Inr c'"
    by (auto split: sum.splits)
  from Cons.IH[OF rest] unmarshalMember_keeps[OF c1] show ?case by simp
qed

lemma Unmarshal_keeps:
  "Unmarshal E s c = Inr c' \<Longrightarrow>
     namespace c' = namespace c \<and> resourceVersion c' = resourceVersion c \<and>
     ConsumerConfigs c' = ConsumerConfigs c \<and> FilterConfigs c' = FilterConfigs c"
  by (auto simp: Unmarshal_def jsonUnmarshal_def split: option.splits json.splits
           dest: unmarshalMembers_keeps)

lemma Marshal_persisted:
  "Marshal E aks fks (c\<lparr>namespace := n, resourceVersion := v, ConsumerConfigs := cc, FilterConfigs := fcs\<rparr>)
     = Marshal E aks fks c"
  by (simp add: Marshal_def jsonMarshal_def split: sum.splits)







section \<open>An entry whose processing returns an error\<close>

text \<open>
  An entry of the snapshot for which \<^verbatim>\<open>Unmarshal\<close> or \<^verbatim>\<open>InitConfigs\<close> returns an error leaves,
  apart from the log, the state the update would have reached without the entry.
\<close>

lemma sameButLog_refl [simp]: "sameButLog s s"
  by (simp add: sameButLog_def)

lemma sameButLog_sym: "sameButLog s t \<Longrightarrow> sameButLog t s"
  by (simp add: sameButLog_def)

lemma sameButLog_trans: "sameButLog s t \<Longrightarrow> sameButLog t u \<Longrightarrow> sameButLog s u"
  by (simp add: sameButLog_def)

lemma sameButLog_logged [simp]: "sameButLog (s\<lparr>logged := l\<rparr>) t = sameButLog s t"
  "sameButLog s (t\<lparr>logged := l\<rparr>) = sameButLog s t"
  by (simp_all add: sameButLog_def)

text \<open>The body of the loop, by what the entry is.\<close>

lemma processEntry_by_body:
  "processEntry E ord ns currIdx nv (newIdx, st) =
     (case reusable st currIdx (fst nv) (entryVersion (snd nv)) of
        Some p \<Rightarrow> Normal (newIdx(fst nv \<mapsto> p), st)
      | None \<Rightarrow>
          (case bodyResult E ord ns (fst nv) (snd nv) of
             Ok c \<Rightarrow>
               Normal (newIdx(fst nv \<mapsto> nextAddr st),
                 snd (final (processEntry E ord ns currIdx nv (newIdx, st))))
           | Err err \<Rightarrow> Normal (newIdx, snd (final (processEntry E ord ns currIdx nv (newIdx, st))))
           | NilPointerPanic \<Rightarrow> Panic (newIdx, snd (final (processEntry E ord ns currIdx nv (newIdx, st))))))"
  by (auto simp: processEntry_def bodyResult_def entryVersion_def entryBody_def Let_def
           split: option.splits sum.splits result.splits)

lemma processEntry_skip_state:
  assumes "reusable st currIdx (fst nv) (entryVersion (snd nv)) = None"
      and "\<not> initializes E ord ns (fst nv) (snd nv)"
  shows "sameButLog (snd (final (processEntry E ord ns currIdx nv (newIdx, st)))) st \<and>
         fst (final (processEntry E ord ns currIdx nv (newIdx, st))) = newIdx"
  using assms
  by (auto simp: processEntry_def bodyResult_def initializes_def entryVersion_def entryBody_def Let_def
        sameButLog_def split: option.splits sum.splits result.splits)

lemma processEntry_congruence:
  assumes "sameButLog s t"
  shows "(case (processEntry E ord ns currIdx nv (newIdx, s), processEntry E ord ns currIdx nv (newIdx, t)) of
            (Normal a, Normal b) \<Rightarrow> fst a = fst b \<and> sameButLog (snd a) (snd b)
          | (Panic a, Panic b) \<Rightarrow> fst a = fst b \<and> sameButLog (snd a) (snd b)
          | _ \<Rightarrow> False)"
  using assms
  by (auto simp: processEntry_def Let_def sameButLog_def reusable_def
           split: option.splits sum.splits result.splits)

lemma processEntry_fails:
  assumes "reusable s currIdx (fst nv) (entryVersion (snd nv)) = None"
      and "failsToInit E ord ns (fst nv) (snd nv)"
  obtains s' where "processEntry E ord ns currIdx nv (newIdx, s) = Normal (newIdx, s')"
    and "sameButLog s' s"
proof -
  have ni: "\<not> initializes E ord ns (fst nv) (snd nv)"
    using assms(2) by (auto simp: failsToInit_def initializes_def split: result.splits)
  have "\<exists>s'. processEntry E ord ns currIdx nv (newIdx, s) = Normal (newIdx, s')"
    using assms by (subst processEntry_by_body) (auto simp: failsToInit_def split: result.splits)
  then obtain s' where s': "processEntry E ord ns currIdx nv (newIdx, s) = Normal (newIdx, s')" by blast
  with processEntry_skip_state[OF assms(1) ni, of newIdx] have "sameButLog s' s" by simp
  with s' show ?thesis by (rule that)
qed

text \<open>
  A loop over the consumers of a namespace, with and without an entry that fails: the
  same index and the same heap.
\<close>

lemma consumersLoop_without:
  assumes skip: "\<And>e s. fm bad = Some e \<Longrightarrow> evolves st0 s \<Longrightarrow>
             reusable s currIdx bad (entryVersion e) = None \<and> failsToInit E ord ns bad e"
      and rel: "sameButLog s t" and ev: "evolves st0 s"
  shows "rel_outcome (rel_prod (=) sameButLog)
           (consumersLoop E ord ns currIdx (range_go ks fm) (n, s))
           (consumersLoop E ord ns currIdx (range_go ks (fm(bad := None))) (n, t))"
  using rel ev
proof (induction ks arbitrary: n s t)
  case Nil
  then show ?case by simp
next
  case (Cons k ks)
  show ?case
  proof (cases "fm k")
    case None
    have l1: "range_go (k # ks) fm = range_go ks fm"
      using None by (simp add: range_go_Cons)
    have l2: "range_go (k # ks) (fm(bad := None)) = range_go ks (fm(bad := None))"
      using None by (simp add: range_go_Cons)
    show ?thesis unfolding l1 l2 using Cons.prems by (rule Cons.IH)
  next
    case (Some e)
    show ?thesis
    proof (cases "k = bad")
      case True
      from skip[OF Some[unfolded True] Cons.prems(2)]
      have a: "reusable s currIdx (fst (bad, e)) (entryVersion (snd (bad, e))) = None"
        and b: "failsToInit E ord ns (fst (bad, e)) (snd (bad, e))" by simp_all
      from processEntry_fails[OF a b, of n] obtain s' where
        s': "processEntry E ord ns currIdx (bad, e) (n, s) = Normal (n, s')" and same: "sameButLog s' s"
        by blast
      have ev': "evolves st0 s'"
        using processEntry_evolves[of "(n, s)" E ord ns currIdx "(bad, e)"] s' Cons.prems(2)
        by (auto intro: evolves_trans)
      have "sameButLog s' t" using same Cons.prems(1) by (rule sameButLog_trans)
      then have ih: "rel_outcome (rel_prod (=) sameButLog)
           (consumersLoop E ord ns currIdx (range_go ks fm) (n, s'))
           (consumersLoop E ord ns currIdx (range_go ks (fm(bad := None))) (n, t))"
        using ev' by (rule Cons.IH)
      have l1: "range_go (k # ks) fm = (bad, e) # range_go ks fm"
        using True Some by (simp add: range_go_Cons)
      have l2: "range_go (k # ks) (fm(bad := None)) = range_go ks (fm(bad := None))"
        using True by (simp add: range_go_Cons)
      have "consumersLoop E ord ns currIdx ((bad, e) # range_go ks fm) (n, s)
          = consumersLoop E ord ns currIdx (range_go ks fm) (n, s')"
        using s' by simp
      then show ?thesis unfolding l1 l2 using ih by (simp only:)
    next
      case False
      have l1: "range_go (k # ks) fm = (k, e) # range_go ks fm"
        using Some by (simp add: range_go_Cons)
      have l2: "range_go (k # ks) (fm(bad := None)) = (k, e) # range_go ks (fm(bad := None))"
        using False Some by (simp add: range_go_Cons)
      let ?l = "processEntry E ord ns currIdx (k, e) (n, s)"
      let ?r = "processEntry E ord ns currIdx (k, e) (n, t)"
      have c: "(case (?l, ?r) of
            (Normal a, Normal b) \<Rightarrow> fst a = fst b \<and> sameButLog (snd a) (snd b)
          | (Panic a, Panic b) \<Rightarrow> fst a = fst b \<and> sameButLog (snd a) (snd b)
          | _ \<Rightarrow> False)"
        by (rule processEntry_congruence[OF Cons.prems(1)])
      show ?thesis
      proof (cases ?l)
        case (Panic a)
        then obtain b where "?r = Panic b" "fst a = fst b" "sameButLog (snd a) (snd b)"
          using c by (auto split: outcome.splits)
        then have "consumersLoop E ord ns currIdx ((k, e) # range_go ks fm) (n, s) = Panic a"
          "consumersLoop E ord ns currIdx ((k, e) # range_go ks (fm(bad := None))) (n, t) = Panic b"
          "rel_prod (=) sameButLog a b"
          using Panic by (simp_all add: rel_prod_sel)
        then show ?thesis unfolding l1 l2 by (simp only: outcome.rel_inject)
      next
        case (Normal a)
        then obtain b where b: "?r = Normal b" "fst a = fst b" "sameButLog (snd a) (snd b)"
          using c by (auto split: outcome.splits)
        have ev': "evolves st0 (snd a)"
          using processEntry_evolves[of "(n, s)" E ord ns currIdx "(k, e)"] Normal Cons.prems(2)
          by (auto intro: evolves_trans)
        obtain n1 s1 where a: "a = (n1, s1)" by (cases a)
        obtain t1 where b': "b = (n1, t1)" using b(2) a by (cases b) simp
        have "sameButLog s1 t1" "evolves st0 s1" using b(3) ev' a b' by simp_all
        then have ih: "rel_outcome (rel_prod (=) sameButLog)
           (consumersLoop E ord ns currIdx (range_go ks fm) (n1, s1))
           (consumersLoop E ord ns currIdx (range_go ks (fm(bad := None))) (n1, t1))"
          by (rule Cons.IH)
        have "consumersLoop E ord ns currIdx ((k, e) # range_go ks fm) (n, s)
            = consumersLoop E ord ns currIdx (range_go ks fm) (n1, s1)"
          "consumersLoop E ord ns currIdx ((k, e) # range_go ks (fm(bad := None))) (n, t)
            = consumersLoop E ord ns currIdx (range_go ks (fm(bad := None))) (n1, t1)"
          using Normal b(1) a b' by simp_all
        then show ?thesis unfolding l1 l2 using ih by (simp only:)
      qed
    qed
  qed
qed

lemma consumersLoop_bad_absent:
  assumes skip: "\<And>e s. fm bad = Some e \<Longrightarrow> evolves st0 s \<Longrightarrow>
             reusable s currIdx bad (entryVersion e) = None \<and> failsToInit E ord ns bad e"
      and ev: "evolves st0 s"
  shows "fst (final (consumersLoop E ord ns currIdx (range_go ks fm) (Map.empty, s))) bad = None"
proof -
  let ?P = "\<lambda>a. evolves st0 (snd a) \<and> fst a bad = None"
  have "?P (final (consumersLoop E ord ns currIdx (range_go ks fm) (Map.empty, s)))"
  proof (rule consumersLoop_invariant[where P = ?P], goal_cases)
    case 1
    then show ?case using ev by simp
  next
    case (2 nv a)
    obtain n s1 where a: "a = (n, s1)" by (cases a)
    have ev1: "evolves st0 s1" and none: "n bad = None" using 2 a by simp_all
    have ev2: "evolves st0 (snd (final (processEntry E ord ns currIdx nv a)))"
      using processEntry_evolves[of a E ord ns currIdx nv] ev1 a by (auto intro: evolves_trans)
    have "fst (final (processEntry E ord ns currIdx nv a)) bad = None"
    proof (cases "fst nv = bad")
      case False
      then show ?thesis using processEntry_other[of bad nv E ord ns currIdx a] none a by simp
    next
      case True
      have "fm (fst nv) = Some (snd nv)" by (rule range_go_mem_snd[OF 2(1)])
      from skip[OF this[unfolded True] ev1] True
      have x: "reusable s1 currIdx (fst nv) (entryVersion (snd nv)) = None"
        and y: "failsToInit E ord ns (fst nv) (snd nv)" by simp_all
      from processEntry_fails[OF x y, of n] obtain s' where
        "processEntry E ord ns currIdx nv (n, s1) = Normal (n, s')" by blast
      then show ?thesis using none a by simp
    qed
    with ev2 show ?case by simp
  qed
  then show ?thesis by simp
qed

lemma rel_consumersLoop_same:
  assumes "sameButLog s t"
  shows "rel_outcome (rel_prod (=) sameButLog)
           (consumersLoop E ord ns currIdx xs (n, s)) (consumersLoop E ord ns currIdx xs (n, t))"
  using assms
proof (induction xs arbitrary: n s t)
  case Nil
  then show ?case by simp
next
  case (Cons nv xs)
  let ?l = "processEntry E ord ns currIdx nv (n, s)"
  let ?r = "processEntry E ord ns currIdx nv (n, t)"
  have c: "(case (?l, ?r) of
        (Normal a, Normal b) \<Rightarrow> fst a = fst b \<and> sameButLog (snd a) (snd b)
      | (Panic a, Panic b) \<Rightarrow> fst a = fst b \<and> sameButLog (snd a) (snd b)
      | _ \<Rightarrow> False)"
    by (rule processEntry_congruence[OF Cons.prems])
  show ?case
  proof (cases ?l)
    case (Panic a)
    then obtain b where "?r = Panic b" "fst a = fst b" "sameButLog (snd a) (snd b)"
      using c by (auto split: outcome.splits)
    then show ?thesis using Panic by (simp add: rel_prod_sel)
  next
    case (Normal a)
    then obtain b where b: "?r = Normal b" "fst a = fst b" "sameButLog (snd a) (snd b)"
      using c by (auto split: outcome.splits)
    obtain n1 s1 where a: "a = (n1, s1)" by (cases a)
    obtain t1 where b': "b = (n1, t1)" using b(2) a by (cases b) simp
    have "sameButLog s1 t1" using b(3) a b' by simp
    from Cons.IH[OF this, of n1] show ?thesis
      using Normal b(1) a b' by simp
  qed
qed

lemma rel_processNamespace:
  assumes "sameButLog s t"
      and "rel_outcome (rel_prod (=) sameButLog)
             (consumersLoop E ord ns (currIdxOf s ns) xs (Map.empty, s))
             (consumersLoop E ord ns (currIdxOf s ns) ys (Map.empty, t))"
      and "xs = range_go (snapshotConsumers ord ns) (GetStructFields nsv)"
      and "ys = range_go (snapshotConsumers ord ns) (GetStructFields nsv')"
  shows "rel_outcome sameButLog (processNamespace E ord (ns, nsv) s) (processNamespace E ord (ns, nsv') t)"
proof -
  have cur: "currIdxOf t ns = currIdxOf s ns"
    using assms(1) by (simp add: currIdxOf_def sameButLog_def)
  let ?l = "consumersLoop E ord ns (currIdxOf s ns) xs (Map.empty, s)"
  let ?r = "consumersLoop E ord ns (currIdxOf s ns) ys (Map.empty, t)"
  have pl: "processNamespace E ord (ns, nsv) s =
      (case ?l of Panic acc \<Rightarrow> Panic (snd acc)
       | Normal acc \<Rightarrow> Normal ((snd acc)\<lparr>resourceIndex := (resourceIndex (snd acc))(ns \<mapsto> fst acc)\<rparr>))"
    by (simp add: processNamespace_def Let_def currIdxOf_def assms(3))
  have pr: "processNamespace E ord (ns, nsv') t =
      (case ?r of Panic acc \<Rightarrow> Panic (snd acc)
       | Normal acc \<Rightarrow> Normal ((snd acc)\<lparr>resourceIndex := (resourceIndex (snd acc))(ns \<mapsto> fst acc)\<rparr>))"
    using cur by (simp add: processNamespace_def Let_def currIdxOf_def assms(4))
  show ?thesis
  proof (cases ?l)
    case (Panic a)
    then obtain b where "?r = Panic b" "sameButLog (snd a) (snd b)"
      using assms(2) by (cases ?r) (auto simp: rel_prod_sel)
    then show ?thesis unfolding pl pr using Panic by simp
  next
    case (Normal a)
    then obtain b where "?r = Normal b" "fst a = fst b" "sameButLog (snd a) (snd b)"
      using assms(2) by (cases ?r) (auto simp: rel_prod_sel)
    then show ?thesis unfolding pl pr using Normal by (simp add: sameButLog_def)
  qed
qed

lemma rel_processNamespace_same:
  assumes "sameButLog s t"
  shows "rel_outcome sameButLog (processNamespace E ord nsv s) (processNamespace E ord nsv t)"
proof -
  obtain ns v where nsv: "nsv = (ns, v)" by (cases nsv)
  show ?thesis unfolding nsv
    by (rule rel_processNamespace[OF assms rel_consumersLoop_same[OF assms] refl refl])
qed

text \<open>The condition under which the entry \<open>bad\<close> of the namespace is skipped.\<close>

lemma skip_condition:
  assumes b: "bounded st"
      and nr: "reusable st (currIdxOf st ns) bad v = None"
      and ev: "evolves st s" and ev': "evolves s s'"
      and J: "riLookup s ns bad = None \<or> riLookup s ns bad = riLookup st ns bad"
  shows "reusable s' (currIdxOf s ns) bad v = None"
proof (cases "riLookup s ns bad")
  case None
  then show ?thesis by (simp add: reusable_def currIdxOf_riLookup)
next
  case (Some p)
  with J have p: "riLookup st ns bad = Some p" by simp
  have lt: "p < nextAddr st" by (rule boundedD[OF b p])
  have "evolves st s'" using ev ev' by (rule evolves_trans)
  then have "heap s' p = heap st p" using lt by (simp add: evolves_def)
  moreover have "resourceVersion (heap st p) \<noteq> v"
    using nr p by (auto simp: reusable_def currIdxOf_riLookup split: if_splits)
  ultimately show ?thesis using Some by (simp add: reusable_def currIdxOf_riLookup)
qed

lemma namespacesLoop_without:
  assumes b: "bounded st" and nsv: "snapshot ns = Some nsv" and e: "GetStructFields nsv bad = Some e"
      and nr: "reusable st (currIdxOf st ns) bad (entryVersion e) = None"
      and f: "failsToInit E ord ns bad e"
      and rel: "sameButLog s t" and ev: "evolves st s"
      and J: "riLookup s ns bad = None \<or> riLookup s ns bad = riLookup st ns bad"
  shows "rel_outcome sameButLog
           (namespacesLoop E ord (range_go ks snapshot) s)
           (namespacesLoop E ord (range_go ks (without snapshot ns bad)) t)"
  using rel ev J
proof (induction ks arbitrary: s t)
  case Nil
  then show ?case by simp
next
  case (Cons k ks)
  let ?fm = "GetStructFields nsv"
  let ?nsv' = "StructValue (?fm(bad := None))"
  have wo: "without snapshot ns bad = snapshot(ns \<mapsto> ?nsv')"
    using nsv by (simp add: without_def)
  show ?case
  proof (cases "k = ns")
    case True
    have l1: "range_go (k # ks) snapshot = (ns, nsv) # range_go ks snapshot"
      using True nsv by (simp add: range_go_Cons)
    have l2: "range_go (k # ks) (without snapshot ns bad)
        = (ns, ?nsv') # range_go ks (without snapshot ns bad)"
      using True by (simp add: range_go_Cons wo)
    have skip: "reusable s' (currIdxOf s ns) bad (entryVersion e') = None \<and> failsToInit E ord ns bad e'"
      if "?fm bad = Some e'" "evolves s s'" for e' s'
    proof -
      from that(1) e have "e' = e" by simp
      with skip_condition[OF b nr Cons.prems(2) that(2) Cons.prems(3)] f show ?thesis by simp
    qed
    have loops: "rel_outcome (rel_prod (=) sameButLog)
           (consumersLoop E ord ns (currIdxOf s ns) (range_go (snapshotConsumers ord ns) ?fm) (Map.empty, s))
           (consumersLoop E ord ns (currIdxOf s ns)
              (range_go (snapshotConsumers ord ns) (?fm(bad := None))) (Map.empty, t))"
      by (rule consumersLoop_without[where ?st0.0 = s, OF skip Cons.prems(1)]) simp_all
    have fm': "GetStructFields ?nsv' = ?fm(bad := None)" by (simp add: GetStructFields_def)
    have pn: "rel_outcome sameButLog (processNamespace E ord (ns, nsv) s) (processNamespace E ord (ns, ?nsv') t)"
      by (rule rel_processNamespace[OF Cons.prems(1) loops refl]) (simp only: fm')
    show ?thesis
    proof (cases "processNamespace E ord (ns, nsv) s")
      case (Panic s1)
      then obtain t1 where "processNamespace E ord (ns, ?nsv') t = Panic t1" "sameButLog s1 t1"
        using pn by (cases "processNamespace E ord (ns, ?nsv') t") auto
      then show ?thesis unfolding l1 l2 using Panic by simp
    next
      case (Normal s1)
      then obtain t1 where t1: "processNamespace E ord (ns, ?nsv') t = Normal t1" "sameButLog s1 t1"
        using pn by (cases "processNamespace E ord (ns, ?nsv') t") auto
      have ev1: "evolves st s1"
        using processNamespace_evolves[of s E ord "(ns, nsv)"] Normal Cons.prems(2)
        by (auto intro: evolves_trans)
      have "fst (final (consumersLoop E ord ns (currIdxOf s ns)
              (range_go (snapshotConsumers ord ns) ?fm) (Map.empty, s))) bad = None"
        by (rule consumersLoop_bad_absent[where ?st0.0 = s, OF skip]) simp_all
      then have J1: "riLookup s1 ns bad = None"
        using processNamespace_riLookup[of E ord "(ns, nsv)" s ns bad] Normal by simp
      have "rel_outcome sameButLog
           (namespacesLoop E ord (range_go ks snapshot) s1)
           (namespacesLoop E ord (range_go ks (without snapshot ns bad)) t1)"
        by (rule Cons.IH[OF t1(2) ev1]) (simp add: J1)
      then show ?thesis unfolding l1 l2 using Normal t1(1) by simp
    qed
  next
    case False
    show ?thesis
    proof (cases "snapshot k")
      case None
      have l1: "range_go (k # ks) snapshot = range_go ks snapshot"
        using None by (simp add: range_go_Cons)
      have l2: "range_go (k # ks) (without snapshot ns bad) = range_go ks (without snapshot ns bad)"
        using None False by (simp add: range_go_Cons wo)
      show ?thesis unfolding l1 l2 using Cons.prems by (rule Cons.IH)
    next
      case (Some v)
      have l1: "range_go (k # ks) snapshot = (k, v) # range_go ks snapshot"
        using Some by (simp add: range_go_Cons)
      have l2: "range_go (k # ks) (without snapshot ns bad) = (k, v) # range_go ks (without snapshot ns bad)"
        using Some False by (simp add: range_go_Cons wo)
      have pn: "rel_outcome sameButLog (processNamespace E ord (k, v) s) (processNamespace E ord (k, v) t)"
        by (rule rel_processNamespace_same[OF Cons.prems(1)])
      show ?thesis
      proof (cases "processNamespace E ord (k, v) s")
        case (Panic s1)
        then obtain t1 where "processNamespace E ord (k, v) t = Panic t1" "sameButLog s1 t1"
          using pn by (cases "processNamespace E ord (k, v) t") auto
        then show ?thesis unfolding l1 l2 using Panic by simp
      next
        case (Normal s1)
        then obtain t1 where t1: "processNamespace E ord (k, v) t = Normal t1" "sameButLog s1 t1"
          using pn by (cases "processNamespace E ord (k, v) t") auto
        have ev1: "evolves st s1"
          using processNamespace_evolves[of s E ord "(k, v)"] Normal Cons.prems(2)
          by (auto intro: evolves_trans)
        have "riLookup s1 ns bad = riLookup s ns bad"
          using processNamespace_other[of ns "(k, v)" E ord s] False Normal
          by (simp add: riLookup_def)
        then have J1: "riLookup s1 ns bad = None \<or> riLookup s1 ns bad = riLookup st ns bad"
          using Cons.prems(3) by simp
        have "rel_outcome sameButLog
             (namespacesLoop E ord (range_go ks snapshot) s1)
             (namespacesLoop E ord (range_go ks (without snapshot ns bad)) t1)"
          by (rule Cons.IH[OF t1(2) ev1 J1])
        then show ?thesis unfolding l1 l2 using Normal t1(1) by simp
      qed
    qed
  qed
qed

text \<open>The rebuild of the scope index reads the resource index and the heap.\<close>

lemma indexPlugin_heap:
  "heap s = heap t \<Longrightarrow> indexPlugin E s ns p pc acc = indexPlugin E t ns p pc acc"
  by (simp add: indexPlugin_def Let_def split: option.splits)

lemma pluginsLoop_heap:
  "heap s = heap t \<Longrightarrow> pluginsLoop E s ns p cfgs acc = pluginsLoop E t ns p cfgs acc"
  by (induction cfgs arbitrary: acc) (simp_all add: indexPlugin_heap[of s t])

lemma scopeConsumersLoop_heap:
  "heap s = heap t \<Longrightarrow> scopeConsumersLoop E ord s ns nps acc = scopeConsumersLoop E ord t ns nps acc"
  by (induction nps arbitrary: acc) (simp_all add: pluginsLoop_heap[of s t])

lemma nsScope_heap: "heap s = heap t \<Longrightarrow> nsScope E ord s = nsScope E ord t"
  by (simp add: nsScope_def scopeConsumersLoop_heap[of s t] fun_eq_iff)

lemma rebuildScopeIndex_sameButLog:
  assumes "sameButLog s t"
  shows "sameButLog (rebuildScopeIndex E ord s) (rebuildScopeIndex E ord t)"
proof -
  have h: "heap s = heap t" and r: "resourceIndex s = resourceIndex t"
    using assms by (simp_all add: sameButLog_def)
  have "scopeIndex (rebuildScopeIndex E ord s) = scopeIndex (rebuildScopeIndex E ord t)"
    unfolding scopeIndex_rebuildScopeIndex nsScope_heap[OF h] r by (rule refl)
  then show ?thesis
    using assms by (simp add: sameButLog_def)
qed

lemma updateConsumers_without:
  assumes wf: "wf_state st" and nsv: "snapshot ns = Some nsv" and e: "GetStructFields nsv bad = Some e"
      and nr: "reusable st (currIdxOf st ns) bad (entryVersion e) = None"
      and f: "failsToInit E ord ns bad e"
  shows "rel_outcome sameButLog (updateConsumers E ord snapshot st)
           (updateConsumers E ord (without snapshot ns bad) st)"
proof -
  have r: "rel_outcome sameButLog
           (namespacesLoop E ord (range_go (snapshotNamespaces ord) snapshot) st)
           (namespacesLoop E ord (range_go (snapshotNamespaces ord) (without snapshot ns bad)) st)"
    by (rule namespacesLoop_without[where snapshot = snapshot, OF wf_state_bounded[OF wf] nsv e nr f])
       simp_all
  show ?thesis
  proof (cases "namespacesLoop E ord (range_go (snapshotNamespaces ord) snapshot) st")
    case (Panic s1)
    then obtain t1 where
      "namespacesLoop E ord (range_go (snapshotNamespaces ord) (without snapshot ns bad)) st = Panic t1"
      "sameButLog s1 t1"
      using r by (cases "namespacesLoop E ord (range_go (snapshotNamespaces ord) (without snapshot ns bad)) st") auto
    then show ?thesis using Panic by (simp add: updateConsumers_def)
  next
    case (Normal s1)
    then obtain t1 where
      "namespacesLoop E ord (range_go (snapshotNamespaces ord) (without snapshot ns bad)) st = Normal t1"
      "sameButLog s1 t1"
      using r by (cases "namespacesLoop E ord (range_go (snapshotNamespaces ord) (without snapshot ns bad)) st") auto
    then show ?thesis using Normal by (simp add: updateConsumers_def rebuildScopeIndex_sameButLog)
  qed
qed

lemma processEntry_Normal:
  assumes "bodyResult E ord ns (fst nv) (snd nv) \<noteq> NilPointerPanic"
  shows "\<exists>a. processEntry E ord ns currIdx nv acc = Normal a"
proof -
  obtain n s where acc: "acc = (n, s)" by (cases acc)
  show ?thesis unfolding acc using assms
    by (subst processEntry_by_body) (auto split: option.splits result.splits)
qed

lemma consumersLoop_Normal:
  assumes "\<forall>nv \<in> set xs. bodyResult E ord ns (fst nv) (snd nv) \<noteq> NilPointerPanic"
  shows "\<exists>a. consumersLoop E ord ns currIdx xs acc = Normal a"
  using assms
proof (induction xs arbitrary: acc)
  case Nil
  then show ?case by simp
next
  case (Cons nv xs)
  then obtain a where "processEntry E ord ns currIdx nv acc = Normal a"
    using processEntry_Normal[of E ord ns nv currIdx acc] by auto
  then show ?case using Cons.IH[of a] Cons.prems by simp
qed

lemma processNamespace_Normal:
  assumes "\<forall>nv \<in> set (range_go (snapshotConsumers ord (fst nsv)) (GetStructFields (snd nsv))).
             bodyResult E ord (fst nsv) (fst nv) (snd nv) \<noteq> NilPointerPanic"
  shows "\<exists>s. processNamespace E ord nsv st = Normal s"
  using consumersLoop_Normal[OF assms, of "currIdxOf st (fst nsv)" "(Map.empty, st)"]
  by (auto simp: processNamespace_def Let_def currIdxOf_def)

lemma namespacesLoop_Normal:
  assumes "\<forall>nsv \<in> set xs. \<forall>nv \<in> set (range_go (snapshotConsumers ord (fst nsv)) (GetStructFields (snd nsv))).
             bodyResult E ord (fst nsv) (fst nv) (snd nv) \<noteq> NilPointerPanic"
  shows "\<exists>s. namespacesLoop E ord xs st = Normal s"
  using assms
proof (induction xs arbitrary: st)
  case Nil
  then show ?case by simp
next
  case (Cons nsv xs)
  then obtain s where "processNamespace E ord nsv st = Normal s"
    using processNamespace_Normal[of ord nsv E st] by auto
  then show ?case using Cons.IH[of s] Cons.prems by simp
qed

lemma updateConsumers_returns:
  assumes "\<forall>ns nsv name e. snapshot ns = Some nsv \<longrightarrow> GetStructFields nsv name = Some e \<longrightarrow>
             bodyResult E ord ns name e \<noteq> NilPointerPanic"
  shows "\<exists>st'. updateConsumers E ord snapshot st = Normal st'"
proof -
  have "\<forall>nsv \<in> set (range_go (snapshotNamespaces ord) snapshot).
          \<forall>nv \<in> set (range_go (snapshotConsumers ord (fst nsv)) (GetStructFields (snd nsv))).
             bodyResult E ord (fst nsv) (fst nv) (snd nv) \<noteq> NilPointerPanic"
    using assms by (auto simp: set_range_go)
  from namespacesLoop_Normal[where st = st, OF this] show ?thesis
    by (auto simp: updateConsumers_def)
qed

lemma processEntry_inserts:
  assumes "initializes E ord ns (fst nv) (snd nv)"
  shows "\<exists>a. processEntry E ord ns currIdx nv acc = Normal a \<and> fst a (fst nv) \<noteq> None"
proof -
  obtain n s where acc: "acc = (n, s)" by (cases acc)
  show ?thesis unfolding acc using assms
    by (subst processEntry_by_body) (auto simp: initializes_def split: option.splits result.splits)
qed

lemma processEntry_dom_mono:
  "fst acc name \<noteq> None \<Longrightarrow> fst (final (processEntry E ord ns currIdx nv acc)) name \<noteq> None"
  by (cases acc)
     (auto simp: processEntry_def Let_def split: option.splits sum.splits result.splits)

lemma consumersLoop_dom_mono:
  "fst acc name \<noteq> None \<Longrightarrow> fst (final (consumersLoop E ord ns currIdx xs acc)) name \<noteq> None"
proof (rule consumersLoop_invariant[where P = "\<lambda>a. fst a name \<noteq> None"], goal_cases)
  case 1
  then show ?case by simp
next
  case (2 nv a)
  then show ?case by (intro processEntry_dom_mono)
qed

lemma consumersLoop_inserted:
  assumes "consumersLoop E ord ns currIdx xs acc = Normal a"
      and "(name, e) \<in> set xs" and "initializes E ord ns name e"
  shows "fst a name \<noteq> None"
  using assms(1,2)
proof (induction xs arbitrary: acc)
  case Nil
  then show ?case by simp
next
  case (Cons nv xs)
  from Cons.prems(1) obtain a1 where a1: "processEntry E ord ns currIdx nv acc = Normal a1"
    and rest: "consumersLoop E ord ns currIdx xs a1 = Normal a"
    by (auto split: outcome.splits)
  show ?case
  proof (cases "nv = (name, e)")
    case True
    with processEntry_inserts[of E ord ns nv currIdx acc] assms(3) a1
    have "fst a1 name \<noteq> None" by auto
    from consumersLoop_dom_mono[OF this, of E ord ns currIdx xs] rest show ?thesis by simp
  next
    case False
    with Cons.prems(2) have "(name, e) \<in> set xs" by simp
    from Cons.IH[OF rest this] show ?thesis .
  qed
qed

lemma absent_name_not_indexed:
  assumes upd: "updateConsumers E ord snapshot st = Normal st'"
      and ns: "ns \<in> set (snapshotNamespaces ord)" and nsv: "snapshot ns = Some nsv"
      and gone: "GetStructFields nsv name = None"
  shows "riLookup st' ns name = None"
proof -
  from upd obtain s where run: "ri_phase E ord snapshot st = Normal s"
    and st': "st' = rebuildScopeIndex E ord s"
    by (rule updateConsumers_Normal)
  from ri_phase_visited[OF run ns nsv] obtain s0 a where
    a: "consumersLoop E ord ns (currIdxOf s0 ns)
             (range_go (snapshotConsumers ord ns) (GetStructFields nsv)) (Map.empty, s0) = Normal a"
    and ri: "resourceIndex s ns = Some (fst a)" by blast
  have "name \<notin> fst ` set (range_go (snapshotConsumers ord ns) (GetStructFields nsv))"
    using gone by (auto simp: set_range_go)
  from consumersLoop_other[OF this, of E ord ns "currIdxOf s0 ns" "(Map.empty, s0)"] a
  have "fst a name = None" by simp
  then show ?thesis using ri by (simp add: riLookup_Some st')
qed

lemma indexed_names:
  assumes upd: "updateConsumers E ord snapshot st = Normal st'"
      and ns: "ns \<in> set (snapshotNamespaces ord)" and nsv: "snapshot ns = Some nsv"
      and names: "enumerates (snapshotConsumers ord ns) (GetStructFields nsv)"
      and good: "\<forall>name e. GetStructFields nsv name = Some e \<longrightarrow> name \<noteq> bad \<longrightarrow> initializes E ord ns name e"
  shows "\<exists>m. resourceIndex st' ns = Some m \<and> dom (GetStructFields nsv) - {bad} \<subseteq> dom m \<and>
               dom m \<subseteq> dom (GetStructFields nsv)"
proof -
  from upd obtain s where run: "ri_phase E ord snapshot st = Normal s"
    and st': "st' = rebuildScopeIndex E ord s"
    by (rule updateConsumers_Normal)
  let ?xs = "range_go (snapshotConsumers ord ns) (GetStructFields nsv)"
  from ri_phase_visited[OF run ns nsv] obtain s0 a where
    a: "consumersLoop E ord ns (currIdxOf s0 ns) ?xs (Map.empty, s0) = Normal a"
    and ri: "resourceIndex s ns = Some (fst a)" by blast
  have sub: "dom (fst a) \<subseteq> dom (GetStructFields nsv)"
  proof
    fix name assume d: "name \<in> dom (fst a)"
    have "name \<in> fst ` set ?xs"
    proof (rule ccontr)
      assume "name \<notin> fst ` set ?xs"
      from consumersLoop_other[OF this, of E ord ns "currIdxOf s0 ns" "(Map.empty, s0)"] a
      have "fst a name = None" by simp
      with d show False by auto
    qed
    then show "name \<in> dom (GetStructFields nsv)" by (auto simp: set_range_go)
  qed
  have sup: "dom (GetStructFields nsv) - {bad} \<subseteq> dom (fst a)"
  proof
    fix name assume n: "name \<in> dom (GetStructFields nsv) - {bad}"
    then obtain e where e: "GetStructFields nsv name = Some e" by auto
    have "name \<in> set (snapshotConsumers ord ns)" using names e by (auto simp: enumerates_def)
    then have mem: "(name, e) \<in> set ?xs" using e by (simp add: set_range_go)
    have "initializes E ord ns name e" using good e n by simp
    from consumersLoop_inserted[OF a mem this] show "name \<in> dom (fst a)" by auto
  qed
  from ri sub sup show ?thesis by (simp add: st')
qed

lemma LookupConsumer_scopeIndex:
  "scopeIndex s = scopeIndex t \<Longrightarrow> LookupConsumer s ns pl k = LookupConsumer t ns pl k"
  by (simp add: LookupConsumer_def)

text \<open>
  Every other entry of the snapshot being well formed, the update returns, the namespace
  is indexed with the names of its snapshot other than the failing one, a lookup finds
  indexed consumers only, and the indices and the lookups are those of the update on the
  snapshot without the failing entry.
\<close>

lemma error_returning_entry_isolated:
  assumes wf: "wf_state st"
      and ns: "ns \<in> set (snapshotNamespaces ord)" and nsv: "snapshot ns = Some nsv"
      and names: "enumerates (snapshotConsumers ord ns) (GetStructFields nsv)"
      and e: "GetStructFields nsv bad = Some e"
      and nr: "reusable st (currIdxOf st ns) bad (entryVersion e) = None"
      and fails: "failsToInit E ord ns bad e"
      and good: "\<forall>ns' nsv' name' e'. snapshot ns' = Some nsv' \<longrightarrow> GetStructFields nsv' name' = Some e' \<longrightarrow>
                   (ns', name') \<noteq> (ns, bad) \<longrightarrow> initializes E ord ns' name' e'"
  shows "\<exists>st' st''.
           updateConsumers E ord snapshot st = Normal st' \<and>
           (\<exists>m. resourceIndex st' ns = Some m \<and> dom m = dom (GetStructFields nsv) - {bad}) \<and>
           (\<forall>ns' pl k q. LookupConsumer st' ns' pl k = (Some q, True) \<longrightarrow>
              (\<exists>name. riLookup st' ns' name = Some q \<and> (ns', name) \<noteq> (ns, bad))) \<and>
           updateConsumers E ord (without snapshot ns bad) st = Normal st'' \<and>
           resourceIndex st'' = resourceIndex st' \<and> heap st'' = heap st' \<and>
           (\<forall>ns' pl k. LookupConsumer st'' ns' pl k = LookupConsumer st' ns' pl k)"
proof -
  have nopanic: "\<forall>ns' nsv' name' e'. snapshot ns' = Some nsv' \<longrightarrow> GetStructFields nsv' name' = Some e' \<longrightarrow>
             bodyResult E ord ns' name' e' \<noteq> NilPointerPanic"
  proof (intro allI impI)
    fix ns' nsv' name' e'
    assume a: "snapshot ns' = Some nsv'" "GetStructFields nsv' name' = Some e'"
    show "bodyResult E ord ns' name' e' \<noteq> NilPointerPanic"
    proof (cases "(ns', name') = (ns, bad)")
      case True
      with a nsv e have "e' = e" by simp
      with fails True show ?thesis by (auto simp: failsToInit_def split: result.splits)
    next
      case False
      with good a have "initializes E ord ns' name' e'" by blast
      then show ?thesis by (auto simp: initializes_def split: result.splits)
    qed
  qed
  from updateConsumers_returns[OF nopanic] obtain st' where
    st': "updateConsumers E ord snapshot st = Normal st'" by blast
  from updateConsumers_without[where snapshot = snapshot and ns = ns and nsv = nsv and bad = bad and e = e and E = E and ord = ord, OF wf nsv e nr fails] st' obtain st'' where
    st'': "updateConsumers E ord (without snapshot ns bad) st = Normal st''" and same: "sameButLog st' st''"
    by (cases "updateConsumers E ord (without snapshot ns bad) st") auto
  have goodns: "\<forall>name e. GetStructFields nsv name = Some e \<longrightarrow> name \<noteq> bad \<longrightarrow> initializes E ord ns name e"
    using good nsv by blast
  from indexed_names[OF st' ns nsv names goodns] obtain m where
    m: "resourceIndex st' ns = Some m" "dom (GetStructFields nsv) - {bad} \<subseteq> dom m"
       "dom m \<subseteq> dom (GetStructFields nsv)" by blast
  have wo: "without snapshot ns bad ns = Some (StructValue ((GetStructFields nsv)(bad := None)))"
    using nsv by (simp add: without_def)
  have "riLookup st'' ns bad = None"
    by (rule absent_name_not_indexed[OF st'' ns wo]) (simp add: GetStructFields_def)
  then have nobad: "riLookup st' ns bad = None"
    using same by (simp add: riLookup_def sameButLog_def)
  then have "bad \<notin> dom m" using m(1) by (auto simp: riLookup_Some)
  with m have dom: "dom m = dom (GetStructFields nsv) - {bad}" by auto
  have lk: "\<exists>name. riLookup st' ns' name = Some q \<and> (ns', name) \<noteq> (ns, bad)"
    if "LookupConsumer st' ns' pl k = (Some q, True)" for ns' pl k q
  proof -
    from st' obtain s where "st' = rebuildScopeIndex E ord s"
      by (rule updateConsumers_Normal)
    with LookupConsumer_indexed[of E ord s ns' pl k q True] that
    obtain name where n: "riLookup st' ns' name = Some q" by auto
    with nobad have "(ns', name) \<noteq> (ns, bad)" by auto
    with n show ?thesis by blast
  qed
  have eq: "resourceIndex st'' = resourceIndex st'" "heap st'' = heap st'" "scopeIndex st'' = scopeIndex st'"
    using same by (simp_all add: sameButLog_def)
  have "LookupConsumer st'' ns' pl k = LookupConsumer st' ns' pl k" for ns' pl k
    by (rule LookupConsumer_scopeIndex[OF eq(3)])
  with st' st'' m(1) dom lk eq show ?thesis by blast
qed

section \<open>The same snapshot, a second time\<close>

text \<open>
  Whether \<^verbatim>\<open>InitConfigs\<close> returns without an error does not depend on the order of its two
  loops. A second update with the snapshot of the first finds every indexed Consumer
  under its version and reuses it, and fails again on every entry that failed.
\<close>

lemma visits_namespace:
  "visits E ord snapshot \<Longrightarrow> snapshot ns = Some nsv \<Longrightarrow> ns \<in> set (snapshotNamespaces ord)"
  unfolding visits_def covers_def by blast

lemma visits_consumers:
  "visits E ord snapshot \<Longrightarrow> snapshot ns = Some nsv \<Longrightarrow>
     covers (snapshotConsumers ord ns) (GetStructFields nsv)"
  unfolding visits_def by blast

lemma visits_consumer:
  "visits E ord snapshot \<Longrightarrow> snapshot ns = Some nsv \<Longrightarrow> GetStructFields nsv name = Some e \<Longrightarrow>
     name \<in> set (snapshotConsumers ord ns)"
  using visits_consumers[of E ord snapshot ns nsv] unfolding covers_def by blast

lemma visits_plugins:
  "visits E ord snapshot \<Longrightarrow> snapshot ns = Some nsv \<Longrightarrow> GetStructFields nsv name = Some e \<Longrightarrow>
     Unmarshal E (entryBody e) zeroConsumer = Inr c0 \<Longrightarrow>
     covers (authPlugins ord ns name) (entries (Auth c0)) \<and>
     covers (filterPlugins ord ns name) (entries (Filters c0))"
  unfolding visits_def by blast

lemma initAuth_ok:
  "(\<exists>cc'. initAuth E xs cc = Inr cc') \<longleftrightarrow> (\<forall>nd \<in> set xs. authOk E (fst nd) (snd nd))"
proof (induction xs arbitrary: cc)
  case Nil
  then show ?case by simp
next
  case (Cons nd xs)
  obtain n d where nd: "nd = (n, d)" by (cases nd)
  show ?case
  proof (cases "authOk E n d")
    case True
    then obtain conf conf' where "LoadHttpPlugin E n = Some (ConsumerPlugin conf)"
      "protojsonUnmarshal E d conf = Inr conf'" "Validate E conf' = None"
      by (auto simp: authOk_def split: option.splits http_plugin.splits sum.splits)
    then have eq: "initAuth E (nd # xs) cc = initAuth E xs (cc(n \<mapsto> conf'))"
      by (simp add: nd)
    show ?thesis unfolding eq Cons.IH using True by (simp add: nd)
  next
    case False
    then have "\<exists>e. initAuth E (nd # xs) cc = Inl e"
      by (auto simp: authOk_def nd split: option.splits http_plugin.splits sum.splits)
    with False show ?thesis by (auto simp: nd)
  qed
qed

lemma initFilters_ok:
  "(\<exists>fcs'. initFilters E xs fcs = Ok fcs') \<longleftrightarrow> (\<forall>nd \<in> set xs. filterOk E (fst nd) (snd nd))"
proof (induction xs arbitrary: fcs)
  case Nil
  then show ?case by simp
next
  case (Cons nd xs)
  obtain n d where nd: "nd = (n, d)" by (cases nd)
  show ?case
  proof (cases "filterOk E n d")
    case True
    then obtain p d' conf where "LoadHttpFilterConfigFactoryAndParser E n = Some p"
      "d = Some d'" "Parse p d' = Inr conf"
      by (auto simp: filterOk_def split: option.splits sum.splits)
    then have eq: "initFilters E (nd # xs) fcs =
        initFilters E xs (fcs @ [\<lparr>Name = n, ParsedConfig = conf, ConfigFactory = Factory p\<rparr>])"
      by (simp add: nd)
    show ?thesis unfolding eq Cons.IH using True by (simp add: nd)
  next
    case False
    then have "\<forall>fcs'. initFilters E (nd # xs) fcs \<noteq> Ok fcs'"
      by (auto simp: filterOk_def nd split: option.splits sum.splits)
    with False show ?thesis by (auto simp: nd)
  qed
qed

lemma initializes_iff:
  "initializes E ord ns name e \<longleftrightarrow>
     (\<exists>c0. Unmarshal E (entryBody e) zeroConsumer = Inr c0 \<and>
        (\<forall>nd \<in> set (range_go (authPlugins ord ns name) (entries (Auth c0))). authOk E (fst nd) (snd nd)) \<and>
        (\<forall>nd \<in> set (range_go (filterPlugins ord ns name) (entries (Filters c0))).
            filterOk E (fst nd) (snd nd)))"
proof (cases "Unmarshal E (entryBody e) zeroConsumer")
  case (Inl err)
  then show ?thesis by (simp add: initializes_def bodyResult_def)
next
  case (Inr c0)
  let ?as = "range_go (authPlugins ord ns name) (entries (Auth c0))"
  let ?fs = "range_go (filterPlugins ord ns name) (entries (Filters c0))"
  have "initializes E ord ns name e \<longleftrightarrow>
      (\<exists>cc'. initAuth E ?as Map.empty = Inr cc') \<and> (\<exists>fcs'. initFilters E ?fs [] = Ok fcs')"
    by (auto simp: initializes_def bodyResult_def Inr InitConfigs_def split: sum.splits result.splits)
  then show ?thesis unfolding initAuth_ok initFilters_ok by (simp add: Inr)
qed

lemma set_range_go_covers:
  "covers ks m \<Longrightarrow> set (range_go ks m) = {(k, v). m k = Some v}"
  by (auto simp: set_range_go covers_def)

lemma initializes_order:
  assumes "visits E ord snapshot" and "visits E ord' snapshot"
      and "snapshot ns = Some nsv" and "GetStructFields nsv name = Some e"
  shows "initializes E ord' ns name e \<longleftrightarrow> initializes E ord ns name e"
proof (cases "Unmarshal E (entryBody e) zeroConsumer")
  case (Inl err)
  then show ?thesis by (simp add: initializes_def bodyResult_def)
next
  case (Inr c0)
  from visits_plugins[OF assms(1,3,4) Inr] visits_plugins[OF assms(2,3,4) Inr] have
    a: "covers (authPlugins ord ns name) (entries (Auth c0))"
       "covers (filterPlugins ord ns name) (entries (Filters c0))"
       "covers (authPlugins ord' ns name) (entries (Auth c0))"
       "covers (filterPlugins ord' ns name) (entries (Filters c0))"
    by simp_all
  show ?thesis unfolding initializes_iff
    by (simp add: Inr set_range_go_covers[OF a(1)] set_range_go_covers[OF a(2)]
          set_range_go_covers[OF a(3)] set_range_go_covers[OF a(4)])
qed

lemma consumersLoop_again:
  assumes "consumersLoop E ord ns m1 xs acc = Normal a"
      and "\<forall>nv \<in> set xs. \<forall>p. m1 (fst nv) = Some p \<longrightarrow>
             resourceVersion (heap (snd acc) p) = entryVersion (snd nv)"
      and "\<forall>nv \<in> set xs. m1 (fst nv) = None \<longrightarrow> \<not> initializes E ord ns (fst nv) (snd nv)"
  shows "sameButLog (snd a) (snd acc) \<and>
         (\<forall>name. fst a name = (if name \<in> fst ` set xs \<and> m1 name \<noteq> None then m1 name else fst acc name))"
  using assms
proof (induction xs arbitrary: acc)
  case Nil
  then show ?case by simp
next
  case (Cons nv xs)
  obtain n s where acc: "acc = (n, s)" by (cases acc)
  from Cons.prems(1) obtain a1 where a1: "processEntry E ord ns m1 nv (n, s) = Normal a1"
    and rest: "consumersLoop E ord ns m1 xs a1 = Normal a"
    unfolding acc by (auto split: outcome.splits)
  have step: "sameButLog (snd a1) s \<and> fst a1 = (case m1 (fst nv) of None \<Rightarrow> n | Some p \<Rightarrow> n(fst nv \<mapsto> p))"
  proof (cases "m1 (fst nv)")
    case None
    then have r: "reusable s m1 (fst nv) (entryVersion (snd nv)) = None"
      by (simp add: reusable_def)
    have ni: "\<not> initializes E ord ns (fst nv) (snd nv)" using Cons.prems(3) None by simp
    from processEntry_skip_state[OF r ni, of n] a1 show ?thesis by (simp add: None)
  next
    case (Some p)
    then have "resourceVersion (heap s p) = entryVersion (snd nv)"
      using Cons.prems(2) by (simp add: acc)
    then have r: "reusable s m1 (fst nv) (entryVersion (snd nv)) = Some p"
      by (simp add: reusable_def Some)
    from processEntry_reuse[OF r, of E ord ns n] a1 show ?thesis by (auto simp: Some)
  qed
  then have hp: "heap (snd a1) = heap s" by (simp add: sameButLog_def)
  have old: "\<forall>nv \<in> set xs. \<forall>p. m1 (fst nv) = Some p \<longrightarrow>
             resourceVersion (heap (snd a1) p) = entryVersion (snd nv)"
    using Cons.prems(2) by (simp add: hp acc)
  have new: "\<forall>nv \<in> set xs. m1 (fst nv) = None \<longrightarrow> \<not> initializes E ord ns (fst nv) (snd nv)"
    using Cons.prems(3) by simp
  from Cons.IH[OF rest old new] have
    ih1: "sameButLog (snd a) (snd a1)" and
    ih2: "\<forall>name. fst a name = (if name \<in> fst ` set xs \<and> m1 name \<noteq> None then m1 name else fst a1 name)"
    by blast+
  have 1: "sameButLog (snd a) (snd acc)"
    using sameButLog_trans[OF ih1] step by (simp add: acc)
  have 2: "fst a name = (if name \<in> fst ` set (nv # xs) \<and> m1 name \<noteq> None then m1 name else fst acc name)"
    for name
    using ih2 step by (cases "m1 (fst nv)") (auto simp: acc)
  from 1 2 show ?case by blast
qed

lemma processNamespace_again:
  assumes run: "processNamespace E ord (ns, nsv) s = Normal s'"
      and ri: "resourceIndex s ns = Some m1"
      and old: "\<forall>name p. m1 name = Some p \<longrightarrow>
                  (\<exists>e. GetStructFields nsv name = Some e \<and> resourceVersion (heap s p) = entryVersion e)"
      and new: "\<forall>name e. GetStructFields nsv name = Some e \<longrightarrow> m1 name = None \<longrightarrow>
                  \<not> initializes E ord ns name e"
      and names: "covers (snapshotConsumers ord ns) (GetStructFields nsv)"
  shows "sameButLog s' s"
proof -
  let ?xs = "range_go (snapshotConsumers ord ns) (GetStructFields nsv)"
  from run ri obtain a where a: "consumersLoop E ord ns m1 ?xs (Map.empty, s) = Normal a"
    and s': "s' = (snd a)\<lparr>resourceIndex := (resourceIndex (snd a))(ns \<mapsto> fst a)\<rparr>"
    by (auto simp: processNamespace_def Let_def split: outcome.splits)
  have o: "\<forall>nv \<in> set ?xs. \<forall>p. m1 (fst nv) = Some p \<longrightarrow>
             resourceVersion (heap (snd (Map.empty :: string \<rightharpoonup> addr, s)) p) = entryVersion (snd nv)"
    using old by (fastforce simp: set_range_go)
  have n: "\<forall>nv \<in> set ?xs. m1 (fst nv) = None \<longrightarrow> \<not> initializes E ord ns (fst nv) (snd nv)"
    using new by (auto simp: set_range_go)
  from consumersLoop_again[OF a o n] have
    same: "sameButLog (snd a) s" and
    idx: "\<forall>name. fst a name = (if name \<in> fst ` set ?xs \<and> m1 name \<noteq> None then m1 name else None)"
    by simp_all
  have "fst a name = m1 name" for name
  proof (cases "m1 name")
    case None
    then show ?thesis using idx by simp
  next
    case (Some p)
    with old obtain e where e: "GetStructFields nsv name = Some e" by blast
    then have "name \<in> set (snapshotConsumers ord ns)" using names by (auto simp: covers_def)
    with e have "name \<in> fst ` set ?xs" by (force simp: set_range_go)
    with Some idx show ?thesis by simp
  qed
  then have "fst a = m1" by (rule ext)
  then have "(resourceIndex (snd a))(ns \<mapsto> fst a) = resourceIndex s"
    using same ri by (auto simp: sameButLog_def)
  then show ?thesis using same unfolding s' by (simp add: sameButLog_def)
qed

lemma namespacesLoop_again:
  assumes "namespacesLoop E ord xs s = Normal s'" and "sameButLog s st1"
      and "\<forall>nsv \<in> set xs. \<exists>m1. resourceIndex st1 (fst nsv) = Some m1 \<and>
             (\<forall>name p. m1 name = Some p \<longrightarrow>
                  (\<exists>e. GetStructFields (snd nsv) name = Some e \<and>
                     resourceVersion (heap st1 p) = entryVersion e)) \<and>
             (\<forall>name e. GetStructFields (snd nsv) name = Some e \<longrightarrow> m1 name = None \<longrightarrow>
                  \<not> initializes E ord (fst nsv) name e) \<and>
             covers (snapshotConsumers ord (fst nsv)) (GetStructFields (snd nsv))"
  shows "sameButLog s' st1"
  using assms
proof (induction xs arbitrary: s)
  case Nil
  then show ?case by simp
next
  case (Cons nsv xs)
  obtain ns v where nsv: "nsv = (ns, v)" by (cases nsv)
  from Cons.prems(1) obtain s1 where s1: "processNamespace E ord (ns, v) s = Normal s1"
    and rest: "namespacesLoop E ord xs s1 = Normal s'"
    unfolding nsv by (auto split: outcome.splits)
  from Cons.prems(3) obtain m1 where m1: "resourceIndex st1 ns = Some m1"
    and old: "\<forall>name p. m1 name = Some p \<longrightarrow>
                  (\<exists>e. GetStructFields v name = Some e \<and> resourceVersion (heap st1 p) = entryVersion e)"
    and new: "\<forall>name e. GetStructFields v name = Some e \<longrightarrow> m1 name = None \<longrightarrow>
                  \<not> initializes E ord ns name e"
    and names: "covers (snapshotConsumers ord ns) (GetStructFields v)"
    unfolding nsv by auto
  have eq: "resourceIndex s = resourceIndex st1" "heap s = heap st1"
    using Cons.prems(2) by (simp_all add: sameButLog_def)
  have ri: "resourceIndex s ns = Some m1" by (simp add: eq m1)
  have old': "\<forall>name p. m1 name = Some p \<longrightarrow>
                  (\<exists>e. GetStructFields v name = Some e \<and> resourceVersion (heap s p) = entryVersion e)"
    using old by (simp add: eq)
  have "sameButLog s1 s"
    by (rule processNamespace_again[OF s1 ri old' new names])
  then have "sameButLog s1 st1" using Cons.prems(2) by (rule sameButLog_trans)
  from Cons.IH[OF rest this] Cons.prems(3) show ?case by simp
qed

lemma second_update_keeps_state:
  assumes wf: "wf_state st"
      and v1: "visits E ord snapshot" and v2: "visits E ord' snapshot"
      and u1: "updateConsumers E ord snapshot st = Normal st1"
      and u2: "updateConsumers E ord' snapshot st1 = Normal st2"
  shows "\<exists>s2. st2 = rebuildScopeIndex E ord' s2 \<and> sameButLog s2 st1"
proof -
  from u1 obtain s1 where run1: "ri_phase E ord snapshot st = Normal s1"
    and st1: "st1 = rebuildScopeIndex E ord s1"
    by (rule updateConsumers_Normal)
  from u2 obtain s2 where run2: "ri_phase E ord' snapshot st1 = Normal s2"
    and st2: "st2 = rebuildScopeIndex E ord' s2"
    by (rule updateConsumers_Normal)
  have cond: "\<exists>m1. resourceIndex st1 (fst nsv) = Some m1 \<and>
             (\<forall>name p. m1 name = Some p \<longrightarrow>
                  (\<exists>e. GetStructFields (snd nsv) name = Some e \<and>
                     resourceVersion (heap st1 p) = entryVersion e)) \<and>
             (\<forall>name e. GetStructFields (snd nsv) name = Some e \<longrightarrow> m1 name = None \<longrightarrow>
                  \<not> initializes E ord' (fst nsv) name e) \<and>
             covers (snapshotConsumers ord' (fst nsv)) (GetStructFields (snd nsv))"
    if mem: "nsv \<in> set (range_go (snapshotNamespaces ord') snapshot)" for nsv
  proof -
    obtain ns v where nsv: "nsv = (ns, v)" by (cases nsv)
    from mem have sv: "snapshot ns = Some v" by (simp add: nsv set_range_go)
    have ns: "ns \<in> set (snapshotNamespaces ord)"
      by (rule visits_namespace[OF v1 sv])
    let ?xs = "range_go (snapshotConsumers ord ns) (GetStructFields v)"
    from ri_phase_visited[OF run1 ns sv] obtain s0 a where
      a: "consumersLoop E ord ns (currIdxOf s0 ns) ?xs (Map.empty, s0) = Normal a"
      and ri: "resourceIndex s1 ns = Some (fst a)" by blast
    have ri1: "resourceIndex st1 ns = Some (fst a)" using ri by (simp add: st1)
    have old: "\<exists>e. GetStructFields v name = Some e \<and> resourceVersion (heap st1 p) = entryVersion e"
      if "fst a name = Some p" for name p
    proof -
      from that ri1 have "riLookup st1 ns name = Some p" by (simp add: riLookup_Some)
      from updateConsumers_stamped[OF wf u1 ns sv this] show ?thesis .
    qed
    have new: "\<not> initializes E ord' ns name e"
      if e: "GetStructFields v name = Some e" and none: "fst a name = None" for name e
    proof
      assume "initializes E ord' ns name e"
      with initializes_order[OF v1 v2 sv e] have i: "initializes E ord ns name e" by simp
      have "name \<in> set (snapshotConsumers ord ns)"
        by (rule visits_consumer[OF v1 sv e])
      then have "(name, e) \<in> set ?xs" using e by (simp add: set_range_go)
      from consumersLoop_inserted[OF a this i] none show False by simp
    qed
    have names: "covers (snapshotConsumers ord' ns) (GetStructFields v)"
      by (rule visits_consumers[OF v2 sv])
    from ri1 old new names show ?thesis unfolding nsv by auto
  qed
  have "sameButLog s2 st1"
    by (rule namespacesLoop_again[OF run2[unfolded ri_phase_def] sameButLog_refl]) (use cond in blast)
  with st2 show ?thesis by blast
qed

lemma scopeConsumersLoop_cong:
  assumes "heap s = heap t" and "configPlugins ord ns = configPlugins ord' ns"
  shows "scopeConsumersLoop E ord s ns nps acc = scopeConsumersLoop E ord' t ns nps acc"
proof (induction nps arbitrary: acc)
  case Nil
  then show ?case by simp
next
  case (Cons np nps)
  have "pluginsLoop E s ns (snd np) cfgs acc = pluginsLoop E t ns (snd np) cfgs acc" for cfgs
    by (rule pluginsLoop_heap[OF assms(1)])
  then show ?case using Cons.IH by (simp add: assms)
qed

lemma nsScope_cong:
  assumes "heap s = heap t" and "configPlugins ord ns = configPlugins ord' ns"
      and "indexConsumers ord ns = indexConsumers ord' ns"
  shows "nsScope E ord s ns m = nsScope E ord' t ns m"
  unfolding nsScope_def assms(3) by (simp add: scopeConsumersLoop_cong[OF assms(1,2)])

lemma scopeIndex_same_order:
  assumes hp: "heap s = heap t" and ri: "resourceIndex s = resourceIndex t"
      and ins: "indexNamespaces ord' = indexNamespaces ord"
      and ics: "indexConsumers ord' = indexConsumers ord"
      and cps: "configPlugins ord' = configPlugins ord"
  shows "scopeIndex (rebuildScopeIndex E ord' s) = scopeIndex (rebuildScopeIndex E ord t)"
proof -
  have sc: "nsScope E ord' s ns = nsScope E ord t ns" for ns
    by (rule ext, rule nsScope_cong[OF hp]) (simp_all add: ics cps)
  show ?thesis
    unfolding scopeIndex_rebuildScopeIndex sc ri ins by (rule refl)
qed

lemma find_unique:
  assumes "set xs = set ys" and "\<forall>x \<in> set xs. P x = Q x"
      and "\<forall>x \<in> set xs. \<forall>y \<in> set xs. P x \<longrightarrow> P y \<longrightarrow> x = y"
  shows "find P xs = find Q ys"
proof (cases "find P xs")
  case None
  then have "\<forall>x \<in> set xs. \<not> P x" by (simp add: find_None_iff)
  then have "\<forall>y \<in> set ys. \<not> Q y" using assms(1,2) by auto
  then have "find Q ys = None" by (simp add: find_None_iff)
  with None show ?thesis by simp
next
  case (Some x)
  from find_SomeD[OF Some] have x: "x \<in> set xs" "P x" by simp_all
  then have "\<exists>y \<in> set ys. Q y" using assms(1,2) by auto
  then obtain y where y: "find Q ys = Some y" by (cases "find Q ys") (auto simp: find_None_iff)
  from find_SomeD[OF y] have "y \<in> set xs" "P y" using assms(1,2) by auto
  with x assms(3) have "y = x" by blast
  with Some y show ?thesis by simp
qed

lemma lookups_collision_free:
  assumes hp: "heap s = heap t" and req: "resourceIndex s = resourceIndex t"
      and cf: "collisionFree E t"
      and i1: "indexes ord t" and i2: "indexes ord' t"
  shows "LookupConsumer (rebuildScopeIndex E ord' s) ns pl k
           = LookupConsumer (rebuildScopeIndex E ord t) ns pl k"
proof (cases "resourceIndex t ns")
  case None
  then have "resourceIndex s ns = None" by (simp add: req)
  with None show ?thesis by (simp add: LookupConsumer_rebuildScopeIndex)
next
  case (Some m)
  have ri: "resourceIndex s ns = Some m"
    using Some by (simp add: req)
  have ns: "ns \<in> set (indexNamespaces ord)" "ns \<in> set (indexNamespaces ord')"
    using i1 i2 Some by (auto simp: indexes_def)
  let ?xs = "range_go (indexConsumers ord' ns) m"
  let ?ys = "range_go (indexConsumers ord ns) m"
  have sx: "set ?xs = {(name, p). m name = Some p}"
    using i2 Some by (auto simp: set_range_go indexes_def)
  have sy: "set ?ys = {(name, p). m name = Some p}"
    using i1 Some by (auto simp: set_range_go indexes_def)
  have pr: "produces E s = produces E t"
    by (simp add: produces_def fun_eq_iff hp)
  have w1: "writes E ord' s ns pl k np \<longleftrightarrow> produces E t (snd np) pl k" if "np \<in> set ?xs" for np
  proof -
    obtain name p where np: "np = (name, p)" by (cases np)
    with that sx have "m name = Some p" by simp
    with i2 Some have "dom (entries (ConsumerConfigs (heap t p))) \<subseteq> set (configPlugins ord' ns name)"
      by (auto simp: indexes_def)
    then show ?thesis
      by (auto simp: writes_def np pr produces_def split: option.splits)
  qed
  have w2: "writes E ord t ns pl k np \<longleftrightarrow> produces E t (snd np) pl k" if "np \<in> set ?xs" for np
  proof -
    obtain name p where np: "np = (name, p)" by (cases np)
    with that sx have "m name = Some p" by simp
    with i1 Some have "dom (entries (ConsumerConfigs (heap t p))) \<subseteq> set (configPlugins ord ns name)"
      by (auto simp: indexes_def)
    then show ?thesis
      by (auto simp: writes_def np produces_def split: option.splits)
  qed
  have uniq: "x = y" if "x \<in> set ?xs" "y \<in> set ?xs" "writes E ord' s ns pl k x" "writes E ord' s ns pl k y"
    for x y
  proof -
    obtain n1 p1 where x: "x = (n1, p1)" by (cases x)
    obtain n2 p2 where y: "y = (n2, p2)" by (cases y)
    from that(1,2) sx have m: "m n1 = Some p1" "m n2 = Some p2" by (simp_all add: x y)
    then have r: "riLookup t ns n1 = Some p1" "riLookup t ns n2 = Some p2"
      using Some by (simp_all add: riLookup_Some)
    from that(3,4) w1[OF that(1)] w1[OF that(2)] have "produces E t p1 pl k" "produces E t p2 pl k"
      by (simp_all add: x y)
    with cf r have "n2 = n1" unfolding collisionFree_def by blast
    with m show ?thesis by (simp add: x y)
  qed
  have "find (writes E ord' s ns pl k) ?xs = find (writes E ord t ns pl k) ?ys"
  proof (rule find_unique)
    show "set ?xs = set ?ys" by (simp only: sx sy)
    show "\<forall>x \<in> set ?xs. writes E ord' s ns pl k x = writes E ord t ns pl k x"
      using w1 w2 by blast
    show "\<forall>x \<in> set ?xs. \<forall>y \<in> set ?xs. writes E ord' s ns pl k x \<longrightarrow> writes E ord' s ns pl k y \<longrightarrow> x = y"
      using uniq by blast
  qed
  then show ?thesis
    by (simp add: LookupConsumer_rebuildScopeIndex ns ri Some)
qed

lemma collisionFree_rebuildScopeIndex [simp]:
  "collisionFree E (rebuildScopeIndex E' ord s) = collisionFree E s"
  by (simp add: collisionFree_def produces_def)

lemma indexes_rebuildScopeIndex [simp]:
  "indexes ord' (rebuildScopeIndex E ord s) = indexes ord' s"
  by (simp add: indexes_def)

lemma visits_indexConsumers [simp]:
  "visits E (ord\<lparr>indexConsumers := f\<rparr>) snapshot = visits E ord snapshot"
  by (simp add: visits_def)

lemma demo_bodies:
  "Unmarshal demoEnv aliceText zeroConsumer
     = Inr (zeroConsumer\<lparr>ConsumerName := ''alice'', Auth := Some [''keyAuth'' \<mapsto> ''abc'']\<rparr>)"
  "Unmarshal demoEnv bobText zeroConsumer
     = Inr (zeroConsumer\<lparr>ConsumerName := ''bob'', Auth := Some [''keyAuth'' \<mapsto> ''abc'']\<rparr>)"
  "Unmarshal demoEnv carolText zeroConsumer
     = Inr (zeroConsumer\<lparr>ConsumerName := ''carol'', Auth := Some [''hmacAuth'' \<mapsto> ''xyz'']\<rparr>)"
  by (simp_all add: demo_defs model_defs)

lemma demoOrder_visits: "visits demoEnv demoOrder demoSnapshot"
  unfolding visits_def
proof (intro conjI allI impI)
  show "covers (snapshotNamespaces demoOrder) demoSnapshot"
    by (auto simp: covers_def demoOrder_def demoSnapshot_def split: if_splits)
next
  fix ns nsv assume "demoSnapshot ns = Some nsv"
  then show "covers (snapshotConsumers demoOrder ns) (GetStructFields nsv)"
    by (auto simp: covers_def demoOrder_def demoSnapshot_def GetStructFields_def split: if_splits)
next
  fix ns nsv name e c0
  assume a: "demoSnapshot ns = Some nsv" and b: "GetStructFields nsv name = Some e"
     and c: "Unmarshal demoEnv (entryBody e) zeroConsumer = Inr c0"
  from a b have "e = entry ''1'' aliceText \<or> e = entry ''1'' bobText \<or> e = entry ''1'' carolText"
    by (auto simp: demoSnapshot_def GetStructFields_def split: if_splits)
  then have "entryBody e = aliceText \<or> entryBody e = bobText \<or> entryBody e = carolText"
    by (auto simp: entryBody_def entry_def GetStructFields_def GetStringValue_def)
  with c demo_bodies have d: "dom (entries (Auth c0)) \<subseteq> {''keyAuth'', ''hmacAuth''}"
    and f: "entries (Filters c0) = Map.empty"
    by (auto simp: entries_def zeroConsumer_def split: if_splits)
  show "covers (authPlugins demoOrder ns name) (entries (Auth c0))"
    using d by (auto simp: covers_def demoOrder_def)
  show "covers (filterPlugins demoOrder ns name) (entries (Filters c0))"
    using f by (simp add: covers_def)
qed

lemma demoOrder_visits2: "visits demoEnv demoOrder demoSnapshot2"
  unfolding visits_def
proof (intro conjI allI impI)
  show "covers (snapshotNamespaces demoOrder) demoSnapshot2"
    by (auto simp: covers_def demoOrder_def demoSnapshot2_def split: if_splits)
next
  fix ns nsv assume "demoSnapshot2 ns = Some nsv"
  then show "covers (snapshotConsumers demoOrder ns) (GetStructFields nsv)"
    by (auto simp: covers_def demoOrder_def demoSnapshot2_def GetStructFields_def split: if_splits)
next
  fix ns nsv name e c0
  assume a: "demoSnapshot2 ns = Some nsv" and b: "GetStructFields nsv name = Some e"
     and c: "Unmarshal demoEnv (entryBody e) zeroConsumer = Inr c0"
  from a b have "e = entry ''1'' aliceText"
    by (auto simp: demoSnapshot2_def GetStructFields_def split: if_splits)
  then have "entryBody e = aliceText"
    by (auto simp: entryBody_def entry_def GetStructFields_def GetStringValue_def)
  with c demo_bodies have d: "dom (entries (Auth c0)) \<subseteq> {''keyAuth'', ''hmacAuth''}"
    and f: "entries (Filters c0) = Map.empty"
    by (auto simp: entries_def zeroConsumer_def split: if_splits)
  show "covers (authPlugins demoOrder ns name) (entries (Auth c0))"
    using d by (auto simp: covers_def demoOrder_def)
  show "covers (filterPlugins demoOrder ns name) (entries (Filters c0))"
    using f by (simp add: covers_def)
qed

lemma demoState2_index:
  "resourceIndex demoState2 = [''ns1'' \<mapsto> [''alice'' \<mapsto> 0]]"
  "ConsumerConfigs (heap demoState2 0) = Some [''keyAuth'' \<mapsto> ''abc'']"
  by (simp_all add: demoState2_def demoSnapshot2_def demoState_def demo_defs model_defs Let_def)

lemma demoState2_collisionFree: "collisionFree demoEnv demoState2"
  by (auto simp: collisionFree_def riLookup_def demoState2_index split: if_splits)

lemma demoState2_indexes: "indexes demoOrder demoState2" "indexes demoOrderRev demoState2"
  by (auto simp: indexes_def demoState2_index demoOrder_def demoOrderRev_def entries_def
           split: if_splits)

section \<open>The claims\<close>

subsection \<open>C7: lookup of an absent entry\<close>

text \<open>
  C7. In every state of the registry, the one before any update included (where
  \<^verbatim>\<open>scopeIndex\<close> is nil), \<^verbatim>\<open>LookupConsumer\<close> returns no consumer and \<open>found = false\<close>
  whenever the namespace, the plugin or the key is absent from the scope index. The
  function returns a pair and nothing else: it has no error result, and it reads the
  state without returning one.
\<close>

theorem lookup_absent_not_found:
  "LookupConsumer initialState ns pl k = (None, False) \<and>
   ((\<forall>nsIdx plIdx. entries (scopeIndex st) ns = Some nsIdx \<longrightarrow> nsIdx pl = Some plIdx
        \<longrightarrow> plIdx k = None)
      \<longrightarrow> LookupConsumer st ns pl k = (None, False))"
  by (auto simp: LookupConsumer_def initialState_def entries_def split: option.splits)

theorem lookup_absent_not_found_witness:
  "(\<exists>nsIdx plIdx. entries (scopeIndex demoState) ''ns1'' = Some nsIdx \<and>
       nsIdx ''keyAuth'' = Some plIdx \<and> plIdx ''abc'' = Some 0 \<and> plIdx ''xyz'' = None) \<and>
   LookupConsumer demoState ''ns1'' ''keyAuth'' ''xyz'' = (None, False) \<and>
   LookupConsumer demoState ''ns2'' ''keyAuth'' ''abc'' = (None, False)"
proof -
  have idx: "\<exists>nsIdx plIdx. entries (scopeIndex demoState) ''ns1'' = Some nsIdx \<and>
       nsIdx ''keyAuth'' = Some plIdx \<and> plIdx ''abc'' = Some 0 \<and> plIdx ''xyz'' = None"
    by (simp add: demoState_def demo_defs model_defs Let_def)
  then have h1: "\<forall>nsIdx plIdx. entries (scopeIndex demoState) ''ns1'' = Some nsIdx \<longrightarrow>
       nsIdx ''keyAuth'' = Some plIdx \<longrightarrow> plIdx ''xyz'' = None"
    by auto
  have h2: "\<forall>nsIdx plIdx. entries (scopeIndex demoState) ''ns2'' = Some nsIdx \<longrightarrow>
       nsIdx ''keyAuth'' = Some plIdx \<longrightarrow> plIdx ''abc'' = None"
    by (simp add: demoState_def demo_defs model_defs Let_def)
  from idx
    lookup_absent_not_found[where st = demoState and ns = "''ns1''" and pl = "''keyAuth''"
      and k = "''xyz''", THEN conjunct2, THEN mp, OF h1]
    lookup_absent_not_found[where st = demoState and ns = "''ns2''" and pl = "''keyAuth''"
      and k = "''abc''", THEN conjunct2, THEN mp, OF h2]
  show ?thesis by blast
qed

subsection \<open>C9: errors of auth plugin resolution\<close>

text \<open>
  C9, as the claim states it, fails: line 68 asserts the loaded plugin to
  \<^verbatim>\<open>plugins.ConsumerPlugin\<close> in one step, and line 70 returns the one error
  \<^verbatim>\<open>"plugin %s is not for consumer"\<close> both when no plugin has the name and when the
  plugin is no consumer plugin. With \<^verbatim>\<open>hmacAuth\<close> absent from one registry and present
  without the capability in the other, \<^verbatim>\<open>InitConfigs\<close> returns the same error.
\<close>

theorem auth_resolution_errors_counterexample:
  "LoadHttpPlugin demoEnv ''hmacAuth'' = None \<and>
   LoadHttpPlugin demoEnvPlain ''hmacAuth'' = Some PlainPlugin \<and>
   snd (InitConfigs demoEnv [''hmacAuth''] [] demoCarol) =
   snd (InitConfigs demoEnvPlain [''hmacAuth''] [] demoCarol)"
  by (simp add: demoEnvPlain_def demoEnv_def demoCarol_def InitConfigs_def range_go_def entries_def)

text \<open>
  C9, amended. For an auth entry that the loop reaches (every entry before it
  initialised), \<^verbatim>\<open>InitConfigs\<close> fails with \<^verbatim>\<open>"plugin <name> is not for consumer"\<close> when
  no plugin has the name and also when the plugin lacks the consumer capability: one
  error for both causes, carrying the plugin name.
\<close>

theorem auth_resolution_error:
  assumes "LoadHttpPlugin E name = None \<or> LoadHttpPlugin E name = Some PlainPlugin"
      and "range_go aks (entries (Auth c)) = pre @ (name, data) # post"
      and "initAuth E pre Map.empty = Inr cc"
  shows "snd (InitConfigs E aks fks c) = Err (NotForConsumer name)"
  using assms by (auto simp: InitConfigs_def initAuth_append)

theorem auth_resolution_error_witness:
  "LoadHttpPlugin demoEnvPlain ''hmacAuth'' = Some PlainPlugin \<and>
   range_go [''hmacAuth''] (entries (Auth demoCarol)) = [] @ (''hmacAuth'', ''xyz'') # [] \<and>
   initAuth demoEnvPlain [] Map.empty = Inr Map.empty \<and>
   snd (InitConfigs demoEnvPlain [''hmacAuth''] [] demoCarol) = Err (NotForConsumer ''hmacAuth'')"
proof -
  have a: "LoadHttpPlugin demoEnvPlain ''hmacAuth'' = None \<or>
           LoadHttpPlugin demoEnvPlain ''hmacAuth'' = Some PlainPlugin"
    by (simp add: demoEnvPlain_def)
  have b: "range_go [''hmacAuth''] (entries (Auth demoCarol)) = [] @ (''hmacAuth'', ''xyz'') # []"
    by (simp add: demoCarol_def range_go_def entries_def)
  have c: "initAuth demoEnvPlain [] Map.empty = Inr Map.empty"
    by simp
  from auth_resolution_error[OF a b c, of "[]"] a b c show ?thesis
    by (simp add: demoEnvPlain_def)
qed

subsection \<open>C8: namespaces absent from the snapshot\<close>

text \<open>
  C8. An update changes the resource index only at the namespaces of the snapshot. For
  a namespace absent from the snapshot, the entry of the resource index is after the
  update what it was before, and so is every Consumer it points to. This holds where
  the call returns and where it panics.
\<close>

theorem absent_namespace_untouched:
  assumes "wf_state st" and "snapshot ns = None"
  shows "resourceIndex (final (updateConsumers E ord snapshot st)) ns = resourceIndex st ns \<and>
         (\<forall>name p. riLookup st ns name = Some p \<longrightarrow>
             heap (final (updateConsumers E ord snapshot st)) p = heap st p)"
proof -
  let ?xs = "range_go (snapshotNamespaces ord) snapshot"
  have "ns \<notin> fst ` set ?xs" using assms(2) by (auto simp: set_range_go)
  then have ri: "resourceIndex (final (namespacesLoop E ord ?xs st)) ns = resourceIndex st ns"
    by (rule namespacesLoop_other)
  have ev: "evolves st (final (namespacesLoop E ord ?xs st))" by (rule namespacesLoop_evolves)
  have "heap (final (namespacesLoop E ord ?xs st)) p = heap st p" if "riLookup st ns name = Some p" for name p
    using boundedD[OF wf_state_bounded[OF assms(1)] that] ev by (simp add: evolves_def)
  with ri show ?thesis
    by (simp add: final_updateConsumers ri_phase_def)
qed

theorem absent_namespace_untouched_witness:
  "wf_state demoState \<and> demoSnapshotNs2 ''ns1'' = None \<and>
   riLookup demoState ''ns1'' ''alice'' = Some 0 \<and>
   riLookup (final (updateConsumers demoEnv demoOrderNs2 demoSnapshotNs2 demoState)) ''ns2'' ''bob'' = Some 2 \<and>
   resourceIndex (final (updateConsumers demoEnv demoOrderNs2 demoSnapshotNs2 demoState)) ''ns1''
     = resourceIndex demoState ''ns1'' \<and>
   heap (final (updateConsumers demoEnv demoOrderNs2 demoSnapshotNs2 demoState)) 0 = heap demoState 0"
proof -
  have a: "demoSnapshotNs2 ''ns1'' = None" by (simp add: demoSnapshotNs2_def)
  have b: "riLookup demoState ''ns1'' ''alice'' = Some 0"
    by (simp add: demoState_def demo_defs model_defs Let_def riLookup_def)
  have c: "riLookup (final (updateConsumers demoEnv demoOrderNs2 demoSnapshotNs2 demoState)) ''ns2'' ''bob'' = Some 2"
    by (simp add: demoState_def demoSnapshotNs2_def demoOrderNs2_def demo_defs model_defs Let_def
          riLookup_def)
  from absent_namespace_untouched[where st = demoState and snapshot = demoSnapshotNs2
      and ns = "''ns1''" and E = demoEnv and ord = demoOrderNs2, OF demoState_wf a]
    demoState_wf a b c
  show ?thesis by blast
qed

subsection \<open>C4: two consumers with one (plugin, key)\<close>



subsection \<open>C5: a consumer that left the snapshot\<close>

text \<open>
  When an update returns, on a snapshot that holds the namespace and not the name in it,
  the resource index has no entry for the name in the namespace, every consumer a lookup
  in the namespace finds is indexed under another name, and the Consumer the name pointed
  to before the update is found by no lookup, in no namespace, under no (plugin, key).
\<close>

lemma returning_update_drops_absent_names:
  assumes wf: "wf_state st"
      and upd: "updateConsumers E ord snapshot st = Normal st'"
      and ns: "ns \<in> set (snapshotNamespaces ord)" and nsv: "snapshot ns = Some nsv"
      and gone: "GetStructFields nsv name = None"
  shows "riLookup st' ns name = None \<and>
         (\<forall>pl k q. LookupConsumer st' ns pl k = (Some q, True) \<longrightarrow>
            (\<exists>name'. name' \<noteq> name \<and> riLookup st' ns name' = Some q)) \<and>
         (\<forall>p ns' pl k. riLookup st ns name = Some p \<longrightarrow> fst (LookupConsumer st' ns' pl k) \<noteq> Some p)"
proof -
  from upd obtain s where run: "ri_phase E ord snapshot st = Normal s"
    and st': "st' = rebuildScopeIndex E ord s"
    by (rule updateConsumers_Normal)
  from ri_phase_visited[OF run ns nsv] obtain s0 a where
    a: "consumersLoop E ord ns (currIdxOf s0 ns)
             (range_go (snapshotConsumers ord ns) (GetStructFields nsv)) (Map.empty, s0) = Normal a"
    and ri: "resourceIndex s ns = Some (fst a)" by blast
  have "name \<notin> fst ` set (range_go (snapshotConsumers ord ns) (GetStructFields nsv))"
    using gone by (auto simp: set_range_go)
  from consumersLoop_other[OF this, of E ord ns "currIdxOf s0 ns" "(Map.empty, s0)"] a
  have "fst a name = None" by simp
  then have none: "riLookup s ns name = None" using ri by (simp add: riLookup_Some)
  have 1: "riLookup st' ns name = None" using none by (simp add: st')
  have 2: "\<exists>name'. name' \<noteq> name \<and> riLookup st' ns name' = Some q"
    if "LookupConsumer st' ns pl k = (Some q, True)" for pl k q
  proof -
    from LookupConsumer_indexed[OF that[unfolded st']] obtain name' where
      n': "riLookup s ns name' = Some q" by blast
    with none have "name' \<noteq> name" by auto
    with n' show ?thesis by (auto simp: st')
  qed
  have 3: "fst (LookupConsumer st' ns' pl k) \<noteq> Some p" if old: "riLookup st ns name = Some p" for p ns' pl k
  proof
    assume "fst (LookupConsumer st' ns' pl k) = Some p"
    then obtain b where "LookupConsumer (rebuildScopeIndex E ord s) ns' pl k = (Some p, b)"
      unfolding st' by (cases "LookupConsumer (rebuildScopeIndex E ord s) ns' pl k") auto
    from LookupConsumer_indexed[OF this] obtain name' where n': "riLookup s ns' name' = Some p" by blast
    have "p < nextAddr st" by (rule boundedD[OF wf_state_bounded[OF wf] old])
    with namespacesLoop_provenance[of E ord "range_go (snapshotNamespaces ord) snapshot" st ns' name' p]
      n' run
    have "riLookup st ns' name' = Some p" by (auto simp: ri_phase_def)
    from wf_state_inj[OF wf old this] none n' show False by simp
  qed
  from 1 2 3 show ?thesis by blast
qed

text \<open>
  C5. The update does not always return. \<^verbatim>\<open>InitConfigs\<close> reads \<^verbatim>\<open>data.Config\<close> at line 94
  without a nil check, and \<^verbatim>\<open>data\<close> is nil when a consumer body holds null for a
  registered filter plugin. The panic leaves \<^verbatim>\<open>updateConsumers\<close> before line 146 stores
  the new map of the namespace and before the rebuild of lines 150 to 173.

  Update N is \<open>demoSnapshot\<close> on the initial state: \<^verbatim>\<open>alice\<close> is indexed at address 0
  and the lookup of (\<^verbatim>\<open>ns1\<close>, \<^verbatim>\<open>keyAuth\<close>, \<^verbatim>\<open>abc\<close>) returns her. Update N+1 is
  \<open>demoSnapshotEve\<close>: the namespace \<^verbatim>\<open>ns1\<close> is there, \<^verbatim>\<open>alice\<close> is not, and \<^verbatim>\<open>eve\<close> has
  the body \<^verbatim>\<open>{"name":"eve","filters":{"limitReq":null}}\<close>. The call panics, having logged
  the entry of line 64 for \<^verbatim>\<open>eve\<close> and changed nothing else; \<^verbatim>\<open>alice\<close> is still in the
  resource index and the same lookup still returns her.
\<close>

theorem absent_consumer_kept_when_update_panics:
  "updateConsumers demoEnv demoOrder demoSnapshot initialState = Normal demoState \<and>
   demoSnapshot ''ns1'' = Some (StructValue [''alice'' \<mapsto> entry ''1'' aliceText,
      ''bob'' \<mapsto> entry ''1'' bobText, ''carol'' \<mapsto> entry ''1'' carolText]) \<and>
   riLookup demoState ''ns1'' ''alice'' = Some 0 \<and>
   LookupConsumer demoState ''ns1'' ''keyAuth'' ''abc'' = (Some 0, True) \<and>
   demoSnapshotEve ''ns1'' = Some (StructValue [''bob'' \<mapsto> entry ''1'' bobText,
      ''eve'' \<mapsto> entry ''1'' eveText]) \<and>
   GetStructFields (StructValue [''bob'' \<mapsto> entry ''1'' bobText,
      ''eve'' \<mapsto> entry ''1'' eveText]) ''alice'' = None \<and>
   Unmarshal demoEnv eveText zeroConsumer
     = Inr (zeroConsumer\<lparr>ConsumerName := ''eve'', Filters := Some [''limitReq'' \<mapsto> None]\<rparr>) \<and>
   updateConsumers demoEnv demoOrderEve demoSnapshotEve demoState
     = Panic (demoState\<lparr>logged := logged demoState @ [InfoInitConfigs ''eve'' ''ns1'']\<rparr>) \<and>
   riLookup (final (updateConsumers demoEnv demoOrderEve demoSnapshotEve demoState)) ''ns1'' ''alice''
     = Some 0 \<and>
   LookupConsumer (final (updateConsumers demoEnv demoOrderEve demoSnapshotEve demoState))
     ''ns1'' ''keyAuth'' ''abc'' = (Some 0, True)"
proof -
  have n: "updateConsumers demoEnv demoOrder demoSnapshot initialState = Normal demoState"
    by (simp add: demoState_def demo_defs model_defs Let_def)
  have sn: "demoSnapshot ''ns1'' = Some (StructValue [''alice'' \<mapsto> entry ''1'' aliceText,
      ''bob'' \<mapsto> entry ''1'' bobText, ''carol'' \<mapsto> entry ''1'' carolText])"
    by (simp add: demoSnapshot_def)
  have ri: "riLookup demoState ''ns1'' ''alice'' = Some 0"
    by (simp add: riLookup_def demoState_def demo_defs model_defs Let_def)
  have lk: "LookupConsumer demoState ''ns1'' ''keyAuth'' ''abc'' = (Some 0, True)"
    by (simp add: demoState_def demo_defs model_defs Let_def)
  have se: "demoSnapshotEve ''ns1'' = Some (StructValue [''bob'' \<mapsto> entry ''1'' bobText,
      ''eve'' \<mapsto> entry ''1'' eveText])"
    by (simp add: demoSnapshotEve_def)
  have gone: "GetStructFields (StructValue [''bob'' \<mapsto> entry ''1'' bobText,
      ''eve'' \<mapsto> entry ''1'' eveText]) ''alice'' = None"
    by (simp add: GetStructFields_def)
  have body: "Unmarshal demoEnv eveText zeroConsumer
     = Inr (zeroConsumer\<lparr>ConsumerName := ''eve'', Filters := Some [''limitReq'' \<mapsto> None]\<rparr>)"
    by (simp add: demo_defs model_defs)
  have p: "updateConsumers demoEnv demoOrderEve demoSnapshotEve demoState
     = Panic (demoState\<lparr>logged := logged demoState @ [InfoInitConfigs ''eve'' ''ns1'']\<rparr>)"
    by (simp add: demoSnapshotEve_def demoOrderEve_def demoState_def demo_defs model_defs Let_def)
  have ri': "riLookup (final (updateConsumers demoEnv demoOrderEve demoSnapshotEve demoState))
      ''ns1'' ''alice'' = Some 0"
    unfolding p using ri by (simp add: riLookup_def)
  have lk': "LookupConsumer (final (updateConsumers demoEnv demoOrderEve demoSnapshotEve demoState))
     ''ns1'' ''keyAuth'' ''abc'' = (Some 0, True)"
    unfolding p using lk by (simp add: LookupConsumer_def)
  from n sn ri lk se gone body p ri' lk' show ?thesis by (simp only: simp_thms)
qed

subsection \<open>C3: an entry whose version token is unchanged\<close>

text \<open>
  C3. Let a first update return with a Consumer in the resource index under a
  namespace and a name of its snapshot, and let the snapshot of the next update hold
  the name in the namespace with the same version token. After the second update
  (where it returns and where it panics) the resource index holds the same address
  under the name, and the Consumer at that address is as it was. The body of the loop,
  run on the entry in any state the second update passes through, stores the address
  it finds and returns the state it got: no \<^verbatim>\<open>Unmarshal\<close>, no \<^verbatim>\<open>InitConfigs\<close>, no
  allocation and no log entry.
\<close>

theorem unchanged_version_reuses_consumer:
  assumes wf: "wf_state st"
      and upd1: "updateConsumers E ord snapshot st = Normal st'"
      and ns1: "ns \<in> set (snapshotNamespaces ord)"
      and nsv: "snapshot ns = Some nsv" and e1: "GetStructFields nsv name = Some e1"
      and present: "riLookup st' ns name = Some p"
      and nsv': "snapshot' ns = Some nsv'" and e2: "GetStructFields nsv' name = Some e2"
      and name2: "name \<in> set (snapshotConsumers ord' ns)"
      and same: "entryVersion e2 = entryVersion e1"
  shows "riLookup (final (updateConsumers E ord' snapshot' st')) ns name = Some p \<and>
         heap (final (updateConsumers E ord' snapshot' st')) p = heap st' p \<and>
         (\<forall>s currIdx newIdx. evolves st' s \<longrightarrow> currIdx name = Some p \<longrightarrow>
            processEntry E ord' ns currIdx (name, e2) (newIdx, s) = Normal (newIdx(name \<mapsto> p), s))"
proof -
  have wf1: "wf_state st'" using updateConsumers_wf[OF wf, of E ord snapshot] upd1 by simp
  have b1: "bounded st'" by (rule wf_state_bounded[OF wf1])
  from updateConsumers_stamped[OF wf upd1 ns1 nsv present] e1
  have v: "resourceVersion (heap st' p) = entryVersion e2" by (simp add: same)
  have lt: "p < nextAddr st'" by (rule boundedD[OF b1 present])
  from ri_phase_reuse[where snapshot = snapshot' and E = E, OF b1 present v nsv' e2 name2]
  have ri: "riLookup (final (ri_phase E ord' snapshot' st')) ns name = Some p"
    and ev: "evolves st' (final (ri_phase E ord' snapshot' st'))" by simp_all
  have 1: "riLookup (final (updateConsumers E ord' snapshot' st')) ns name = Some p"
    using ri by (simp add: riLookup_def final_updateConsumers)
  have 2: "heap (final (updateConsumers E ord' snapshot' st')) p = heap st' p"
    using ev lt by (simp add: final_updateConsumers evolves_def)
  have 3: "processEntry E ord' ns currIdx (name, e2) (newIdx, s) = Normal (newIdx(name \<mapsto> p), s)"
    if "evolves st' s" "currIdx name = Some p" for s currIdx newIdx
  proof -
    have "reusable s currIdx name (entryVersion e2) = Some p"
      using reusable_evolves[where st = st' and s = s and currIdx = currIdx and name = name
          and p = p and v = "entryVersion e2", OF that lt] v by simp
    then show ?thesis
      using processEntry_reuse[of s currIdx "(name, e2)" p E ord' ns newIdx] by simp
  qed
  from 1 2 3 show ?thesis by blast
qed

theorem unchanged_version_reuses_consumer_witness:
  "wf_state (initialState :: (string, json, json, string) state) \<and>
   updateConsumers demoEnv demoOrder demoSnapshot initialState = Normal demoState \<and>
   ''ns1'' \<in> set (snapshotNamespaces demoOrder) \<and>
   riLookup demoState ''ns1'' ''alice'' = Some 0 \<and>
   ''alice'' \<in> set (snapshotConsumers demoOrder ''ns1'') \<and>
   entryVersion (entry ''1'' aliceText) = ''1'' \<and>
   riLookup demoState2 ''ns1'' ''alice'' = Some 0 \<and>
   heap demoState2 0 = heap demoState 0 \<and>
   processEntry demoEnv demoOrder ''ns1'' [''alice'' \<mapsto> 0] (''alice'', entry ''1'' aliceText)
     (Map.empty, demoState) = Normal ([''alice'' \<mapsto> 0], demoState)"
proof -
  have upd: "updateConsumers demoEnv demoOrder demoSnapshot initialState = Normal demoState"
    by (simp add: demoState_def demo_defs model_defs Let_def)
  have ns: "''ns1'' \<in> set (snapshotNamespaces demoOrder)"
    by (simp add: demoOrder_def)
  have nsv1: "demoSnapshot ''ns1'' = Some (StructValue [''alice'' \<mapsto> entry ''1'' aliceText,
      ''bob'' \<mapsto> entry ''1'' bobText, ''carol'' \<mapsto> entry ''1'' carolText])"
    by (simp add: demoSnapshot_def)
  have e1: "GetStructFields (StructValue [''alice'' \<mapsto> entry ''1'' aliceText,
      ''bob'' \<mapsto> entry ''1'' bobText, ''carol'' \<mapsto> entry ''1'' carolText]) ''alice''
      = Some (entry ''1'' aliceText)"
    by (simp add: GetStructFields_def)
  have present: "riLookup demoState ''ns1'' ''alice'' = Some 0"
    by (simp add: riLookup_def demoState_def demo_defs model_defs Let_def)
  have nsv2: "demoSnapshot2 ''ns1'' = Some (StructValue [''alice'' \<mapsto> entry ''1'' aliceText])"
    by (simp add: demoSnapshot2_def)
  have e2: "GetStructFields (StructValue [''alice'' \<mapsto> entry ''1'' aliceText]) ''alice''
      = Some (entry ''1'' aliceText)"
    by (simp add: GetStructFields_def)
  have name2: "''alice'' \<in> set (snapshotConsumers demoOrder ''ns1'')"
    by (simp add: demoOrder_def)
  have v: "entryVersion (entry ''1'' aliceText) = ''1''"
    by (simp add: entryVersion_def entry_def GetStructFields_def GetStringValue_def)
  have ev: "evolves demoState demoState" by simp
  have cur: "[''alice'' \<mapsto> (0::nat)] ''alice'' = Some 0" by simp
  note reuse = unchanged_version_reuses_consumer[where snapshot' = demoSnapshot2 and ord' = demoOrder,
      OF wf_state_initialState upd ns nsv1 e1 present nsv2 e2 name2 refl]
  from reuse[THEN conjunct1] reuse[THEN conjunct2, THEN conjunct1]
    reuse[THEN conjunct2, THEN conjunct2, THEN spec[where x = demoState],
      THEN spec[where x = "[''alice'' \<mapsto> 0]"], THEN spec[where x = Map.empty], THEN mp, OF ev,
      THEN mp, OF cur]
    wf_state_initialState upd ns present name2 v
  show ?thesis by (simp add: demoState2_def)
qed

subsection \<open>C6: Marshal and Unmarshal, there and back\<close>




subsection \<open>C10: what Marshal leaves out\<close>

text \<open>
  C10. \<^verbatim>\<open>Marshal\<close> writes the name, the auth map and the filter map, and nothing of
  \<^verbatim>\<open>namespace\<close>, \<^verbatim>\<open>resourceVersion\<close>, \<^verbatim>\<open>ConsumerConfigs\<close> and \<^verbatim>\<open>FilterConfigs\<close>: its
  result is the same whatever these four hold, and the document has the three keys
  \<^verbatim>\<open>name\<close>, \<^verbatim>\<open>auth\<close>, \<^verbatim>\<open>filters\<close>. \<^verbatim>\<open>Unmarshal\<close> of any text leaves the four as the
  receiver has them. So for a Consumer that \<^verbatim>\<open>encoding/json\<close> writes and reads back,
  \<^verbatim>\<open>Unmarshal\<close> of its \<^verbatim>\<open>Marshal\<close> into a new Consumer yields one with an empty
  namespace, an empty version and nil parsed configs.
\<close>

theorem unpersisted_fields_left_out:
  assumes "enumerates aks (entries (Auth c))" and "enumerates fks (entries (Filters c))"
      and "\<forall>k f. entries (Filters c) k = Some (Some f) \<longrightarrow> wellFormedFilter E f"
      and "\<forall>j. jsonMarshal E aks fks c = Inr j \<longrightarrow> jsonParse E (jsonRender E j) = Some j"
  shows "Marshal E aks fks
           (c\<lparr>namespace := n, resourceVersion := v, ConsumerConfigs := cc, FilterConfigs := fcs\<rparr>)
           = Marshal E aks fks c \<and>
         (\<exists>a f. jsonMarshal E aks fks c
                  = Inr (JObject [(''name'', JString (ConsumerName c)), (''auth'', a), (''filters'', f)])) \<and>
         (\<exists>c'. Unmarshal E (Marshal E aks fks c) zeroConsumer = Inr c' \<and>
            namespace c' = [] \<and> resourceVersion c' = [] \<and>
            ConsumerConfigs c' = None \<and> FilterConfigs c' = None) \<and>
         (\<forall>s c0 c'. Unmarshal E s c0 = Inr c' \<longrightarrow>
            namespace c' = namespace c0 \<and> resourceVersion c' = resourceVersion c0 \<and>
            ConsumerConfigs c' = ConsumerConfigs c0 \<and> FilterConfigs c' = FilterConfigs c0)"
proof -
  from roundtrip[OF assms, of zeroConsumer] obtain j c' where
    j: "jsonMarshal E aks fks c = Inr j"
    and u: "Unmarshal E (Marshal E aks fks c) zeroConsumer = Inr c'"
    by (auto simp: zeroConsumer_def)
  from j have doc: "\<exists>a f. jsonMarshal E aks fks c
                  = Inr (JObject [(''name'', JString (ConsumerName c)), (''auth'', a), (''filters'', f)])"
    by (auto simp: jsonMarshal_def split: sum.splits)
  from Unmarshal_keeps[OF u] have
    "namespace c' = [] \<and> resourceVersion c' = [] \<and> ConsumerConfigs c' = None \<and> FilterConfigs c' = None"
    by (simp add: zeroConsumer_def)
  with u doc show ?thesis
    using Marshal_persisted[where E = E and aks = aks and fks = fks and c = c and n = n and v = v
        and cc = cc and fcs = fcs] Unmarshal_keeps[where E = E]
    by blast
qed

theorem unpersisted_fields_left_out_witness:
  "enumerates [''keyAuth''] (entries (Auth (heap demoState 0))) \<and>
   enumerates [] (entries (Filters (heap demoState 0))) \<and>
   jsonMarshal demoEnv [''keyAuth''] [] (heap demoState 0) = Inr aliceDoc \<and>
   jsonParse demoEnv (jsonRender demoEnv aliceDoc) = Some aliceDoc \<and>
   namespace (heap demoState 0) = ''ns1'' \<and> resourceVersion (heap demoState 0) = ''1'' \<and>
   ConsumerConfigs (heap demoState 0) = Some [''keyAuth'' \<mapsto> ''abc''] \<and>
   Marshal demoEnv [''keyAuth''] []
     ((heap demoState 0)\<lparr>namespace := ''ns9'', resourceVersion := ''2'', ConsumerConfigs := None,
        FilterConfigs := None\<rparr>) = Marshal demoEnv [''keyAuth''] [] (heap demoState 0) \<and>
   (\<exists>c'. Unmarshal demoEnv (Marshal demoEnv [''keyAuth''] [] (heap demoState 0)) zeroConsumer = Inr c' \<and>
      namespace c' = [] \<and> resourceVersion c' = [] \<and>
      ConsumerConfigs c' = None \<and> FilterConfigs c' = None)"
proof -
  have c: "heap demoState 0 = zeroConsumer\<lparr>ConsumerName := ''alice'',
      Auth := Some [''keyAuth'' \<mapsto> ''abc''], namespace := ''ns1'', resourceVersion := ''1'',
      ConsumerConfigs := Some [''keyAuth'' \<mapsto> ''abc''], FilterConfigs := Some []\<rparr>"
    by (simp add: demoState_def demo_defs model_defs Let_def)
  have a: "enumerates [''keyAuth''] (entries (Auth (heap demoState 0)))"
    by (simp add: c enumerates_def entries_def)
  have f: "enumerates [] (entries (Filters (heap demoState 0)))"
    by (simp add: c enumerates_def entries_def zeroConsumer_def)
  have w: "\<forall>k f. entries (Filters (heap demoState 0)) k = Some (Some f) \<longrightarrow> wellFormedFilter demoEnv f"
    by (simp add: c entries_def zeroConsumer_def)
  have jm: "jsonMarshal demoEnv [''keyAuth''] [] (heap demoState 0) = Inr aliceDoc"
    by (simp add: c jsonMarshal_def marshalFilters_def marshalAuth_def range_go_def
          zeroConsumer_def aliceDoc_def)
  have p: "jsonParse demoEnv (jsonRender demoEnv aliceDoc) = Some aliceDoc"
    by (simp add: demo_defs)
  have t: "\<forall>j. jsonMarshal demoEnv [''keyAuth''] [] (heap demoState 0) = Inr j \<longrightarrow>
             jsonParse demoEnv (jsonRender demoEnv j) = Some j"
    using jm p by simp
  have fields: "namespace (heap demoState 0) = ''ns1''" "resourceVersion (heap demoState 0) = ''1''"
    "ConsumerConfigs (heap demoState 0) = Some [''keyAuth'' \<mapsto> ''abc'']"
    by (simp_all add: c)
  note left_out = unpersisted_fields_left_out[where n = "''ns9''" and v = "''2''" and cc = None
      and fcs = None, OF a f w t]
  from left_out[THEN conjunct1] left_out[THEN conjunct2, THEN conjunct2, THEN conjunct1]
    a f jm p fields
  show ?thesis by simp
qed

subsection \<open>C1: one failing entry among well-formed ones\<close>

text \<open>
  C1. A failure that \<^verbatim>\<open>Unmarshal\<close> or \<^verbatim>\<open>InitConfigs\<close> returns as an error is isolated
  (\<open>error_returning_entry_isolated\<close>). A filter config that is null is not: \<^verbatim>\<open>InitConfigs\<close>
  reads \<^verbatim>\<open>data.Config\<close> at line 94 without a nil check, and the panic leaves
  \<^verbatim>\<open>updateConsumers\<close>.

  The snapshot \<open>demoSnapshotAliceEve\<close> holds the well-formed \<^verbatim>\<open>alice\<close> and \<^verbatim>\<open>eve\<close>, whose body
  \<^verbatim>\<open>{"name":"eve","filters":{"limitReq":null}}\<close> unmarshals into a Consumer with a nil
  filter config for the registered plugin \<^verbatim>\<open>limitReq\<close>. On the initial state the update
  panics; the namespace has no entry in the resource index, and \<^verbatim>\<open>alice\<close> is found by no
  lookup. On the snapshot without \<^verbatim>\<open>eve\<close> the update returns and the lookup of
  (\<^verbatim>\<open>ns1\<close>, \<^verbatim>\<open>keyAuth\<close>, \<^verbatim>\<open>abc\<close>) returns \<^verbatim>\<open>alice\<close>.
\<close>

theorem update_panics_on_null_filter_config:
  "demoSnapshotAliceEve ''ns1'' = Some (StructValue [''alice'' \<mapsto> entry ''1'' aliceText,
      ''eve'' \<mapsto> entry ''1'' eveText]) \<and>
   initializes demoEnv demoOrderAliceEve ''ns1'' ''alice'' (entry ''1'' aliceText) \<and>
   Unmarshal demoEnv eveText zeroConsumer
     = Inr (zeroConsumer\<lparr>ConsumerName := ''eve'', Filters := Some [''limitReq'' \<mapsto> None]\<rparr>) \<and>
   bodyResult demoEnv demoOrderAliceEve ''ns1'' ''eve'' (entry ''1'' eveText) = NilPointerPanic \<and>
   updateConsumers demoEnv demoOrderAliceEve demoSnapshotAliceEve initialState
     = Panic (initialState\<lparr>heap := (heap initialState)(0 := heap demoState 0), nextAddr := 1,
          logged := [InfoInitConfigs ''alice'' ''ns1'', InfoInitConfigs ''eve'' ''ns1'']\<rparr>) \<and>
   resourceIndex (final (updateConsumers demoEnv demoOrderAliceEve demoSnapshotAliceEve initialState))
     ''ns1'' = None \<and>
   LookupConsumer (final (updateConsumers demoEnv demoOrderAliceEve demoSnapshotAliceEve initialState))
     ''ns1'' ''keyAuth'' ''abc'' = (None, False) \<and>
   riLookup (final (updateConsumers demoEnv demoOrderAliceEve
       (without demoSnapshotAliceEve ''ns1'' ''eve'') initialState)) ''ns1'' ''alice'' = Some 0 \<and>
   LookupConsumer (final (updateConsumers demoEnv demoOrderAliceEve
       (without demoSnapshotAliceEve ''ns1'' ''eve'') initialState)) ''ns1'' ''keyAuth'' ''abc''
     = (Some 0, True)"
proof -
  have sn: "demoSnapshotAliceEve ''ns1'' = Some (StructValue [''alice'' \<mapsto> entry ''1'' aliceText,
      ''eve'' \<mapsto> entry ''1'' eveText])"
    by (simp add: demoSnapshotAliceEve_def)
  have good: "initializes demoEnv demoOrderAliceEve ''ns1'' ''alice'' (entry ''1'' aliceText)"
    by (simp add: initializes_def bodyResult_def entryBody_def demoOrderAliceEve_def demo_defs model_defs)
  have body: "Unmarshal demoEnv eveText zeroConsumer
     = Inr (zeroConsumer\<lparr>ConsumerName := ''eve'', Filters := Some [''limitReq'' \<mapsto> None]\<rparr>)"
    by (simp add: demo_defs model_defs)
  have bad: "bodyResult demoEnv demoOrderAliceEve ''ns1'' ''eve'' (entry ''1'' eveText) = NilPointerPanic"
    by (simp add: bodyResult_def entryBody_def demoOrderAliceEve_def demo_defs model_defs)
  have p: "updateConsumers demoEnv demoOrderAliceEve demoSnapshotAliceEve initialState
     = Panic (initialState\<lparr>heap := (heap initialState)(0 := heap demoState 0), nextAddr := 1,
          logged := [InfoInitConfigs ''alice'' ''ns1'', InfoInitConfigs ''eve'' ''ns1'']\<rparr>)"
    by (simp add: demoSnapshotAliceEve_def demoOrderAliceEve_def demoState_def demo_defs model_defs Let_def)
  have ri: "resourceIndex (final (updateConsumers demoEnv demoOrderAliceEve demoSnapshotAliceEve
      initialState)) ''ns1'' = None"
    unfolding p by (simp add: initialState_def)
  have lk: "LookupConsumer (final (updateConsumers demoEnv demoOrderAliceEve demoSnapshotAliceEve
      initialState)) ''ns1'' ''keyAuth'' ''abc'' = (None, False)"
    unfolding p by (simp add: initialState_def LookupConsumer_def entries_def)
  have ri': "riLookup (final (updateConsumers demoEnv demoOrderAliceEve
       (without demoSnapshotAliceEve ''ns1'' ''eve'') initialState)) ''ns1'' ''alice'' = Some 0"
    by (simp add: riLookup_def without_def demoSnapshotAliceEve_def demoOrderAliceEve_def demo_defs
          model_defs Let_def)
  have lk': "LookupConsumer (final (updateConsumers demoEnv demoOrderAliceEve
       (without demoSnapshotAliceEve ''ns1'' ''eve'') initialState)) ''ns1'' ''keyAuth'' ''abc''
     = (Some 0, True)"
    by (simp add: without_def demoSnapshotAliceEve_def demoOrderAliceEve_def demo_defs
          model_defs Let_def)
  from sn good body bad p ri lk ri' lk' show ?thesis by (simp only: simp_thms)
qed

subsection \<open>C2: the same snapshot twice\<close>

text \<open>
  The rebuild keeps the first consumer it visits for a (plugin, key), and Go leaves the
  order of a \<^verbatim>\<open>range\<close> over a map to the runtime, from one loop to the next. After the update
  of the initial state with \<open>demoSnapshot\<close>, \<^verbatim>\<open>alice\<close> visited before \<^verbatim>\<open>bob\<close>, the lookup of
  (\<^verbatim>\<open>ns1\<close>, \<^verbatim>\<open>keyAuth\<close>, \<^verbatim>\<open>abc\<close>) returns \<^verbatim>\<open>alice\<close>. After a second update with the same
  snapshot, its rebuild visiting \<^verbatim>\<open>bob\<close> before \<^verbatim>\<open>alice\<close>, the same lookup returns \<^verbatim>\<open>bob\<close>:
  the scope index is not the one after the first update.
\<close>

theorem idempotent_update_counterexample:
  "updateConsumers demoEnv demoOrder demoSnapshot initialState = Normal demoState \<and>
   LookupConsumer demoState ''ns1'' ''keyAuth'' ''abc'' = (Some 0, True) \<and>
   ConsumerName (heap demoState 0) = ''alice'' \<and>
   updateConsumers demoEnv demoOrderRev demoSnapshot demoState = Normal demoStateRev \<and>
   LookupConsumer demoStateRev ''ns1'' ''keyAuth'' ''abc'' = (Some 1, True) \<and>
   ConsumerName (heap demoStateRev 1) = ''bob''"
proof -
  have u1: "updateConsumers demoEnv demoOrder demoSnapshot initialState = Normal demoState"
    by (simp add: demoState_def demo_defs model_defs Let_def)
  have l1: "LookupConsumer demoState ''ns1'' ''keyAuth'' ''abc'' = (Some 0, True)"
    by (simp add: demoState_def demo_defs model_defs Let_def)
  have n1: "ConsumerName (heap demoState 0) = ''alice''"
    by (simp add: demoState_def demo_defs model_defs Let_def)
  have u2: "updateConsumers demoEnv demoOrderRev demoSnapshot demoState = Normal demoStateRev"
    by (simp add: demoStateRev_def demoOrderRev_def demoState_def demo_defs model_defs Let_def)
  have l2: "LookupConsumer demoStateRev ''ns1'' ''keyAuth'' ''abc'' = (Some 1, True)"
    by (simp add: demoStateRev_def demoOrderRev_def demoState_def demo_defs model_defs Let_def)
  have n2: "ConsumerName (heap demoStateRev 1) = ''bob''"
    by (simp add: demoStateRev_def demoOrderRev_def demoState_def demo_defs model_defs Let_def)
  from u1 l1 n1 u2 l2 n2 show ?thesis by (simp only: simp_thms)
qed

text \<open>
  C2. Let two successive updates with the same snapshot both return, each visiting every
  namespace and consumer of the snapshot and every plugin of each body, in whatever
  order. After the second update the resource index, the heap and the next address are
  those after the first: every Consumer is reused at its address with its contents and
  none is constructed. If the second rebuild visits the resource index in the order of
  the first, the scope index is the one after the first update. If no two consumers of a
  namespace produce the same (plugin, key), and both rebuilds visit every entry of the
  resource index, every lookup returns what it returned after the first update.
\<close>

theorem second_update_reuses_consumers:
  assumes wf: "wf_state st"
      and v1: "visits E ord snapshot" and v2: "visits E ord' snapshot"
      and u1: "updateConsumers E ord snapshot st = Normal st1"
      and u2: "updateConsumers E ord' snapshot st1 = Normal st2"
  shows "resourceIndex st2 = resourceIndex st1 \<and> heap st2 = heap st1 \<and> nextAddr st2 = nextAddr st1 \<and>
         (indexNamespaces ord' = indexNamespaces ord \<and> indexConsumers ord' = indexConsumers ord \<and>
            configPlugins ord' = configPlugins ord \<longrightarrow> scopeIndex st2 = scopeIndex st1) \<and>
         (collisionFree E st1 \<and> indexes ord st1 \<and> indexes ord' st1 \<longrightarrow>
            (\<forall>ns pl k. LookupConsumer st2 ns pl k = LookupConsumer st1 ns pl k))"
proof -
  from u1 obtain s1 where st1: "st1 = rebuildScopeIndex E ord s1"
    by (rule updateConsumers_Normal)
  from second_update_keeps_state[OF wf v1 v2 u1 u2] obtain s2 where
    st2: "st2 = rebuildScopeIndex E ord' s2" and same: "sameButLog s2 st1" by blast
  have hp: "heap s2 = heap s1" and ri: "resourceIndex s2 = resourceIndex s1"
    and na: "nextAddr s2 = nextAddr s1"
    using same by (simp_all add: sameButLog_def st1)
  have a: "resourceIndex st2 = resourceIndex st1 \<and> heap st2 = heap st1 \<and> nextAddr st2 = nextAddr st1"
    by (simp add: st1 st2 hp ri na)
  have b: "scopeIndex st2 = scopeIndex st1"
    if "indexNamespaces ord' = indexNamespaces ord \<and> indexConsumers ord' = indexConsumers ord \<and>
            configPlugins ord' = configPlugins ord"
    unfolding st1 st2 using that by (intro scopeIndex_same_order[OF hp ri]) simp_all
  have c: "LookupConsumer st2 ns pl k = LookupConsumer st1 ns pl k"
    if "collisionFree E st1 \<and> indexes ord st1 \<and> indexes ord' st1" for ns pl k
    unfolding st1 st2 using that by (intro lookups_collision_free[OF hp ri]) (simp_all add: st1)
  from a b c show ?thesis by blast
qed

theorem second_update_reuses_consumers_witness:
  "wf_state (initialState :: (string, json, json, string) state) \<and>
   visits demoEnv demoOrder demoSnapshot \<and> visits demoEnv demoOrderRev demoSnapshot \<and>
   updateConsumers demoEnv demoOrder demoSnapshot initialState = Normal demoState \<and>
   updateConsumers demoEnv demoOrderRev demoSnapshot demoState = Normal demoStateRev \<and>
   resourceIndex demoStateRev = resourceIndex demoState \<and> heap demoStateRev = heap demoState \<and>
   nextAddr demoStateRev = nextAddr demoState \<and>
   riLookup demoState ''ns1'' ''bob'' = Some 1 \<and>
   wf_state demoState \<and>
   visits demoEnv demoOrder demoSnapshot2 \<and> visits demoEnv demoOrderRev demoSnapshot2 \<and>
   updateConsumers demoEnv demoOrder demoSnapshot2 demoState = Normal demoState2 \<and>
   updateConsumers demoEnv demoOrderRev demoSnapshot2 demoState2 = Normal demoState2Rev \<and>
   collisionFree demoEnv demoState2 \<and> indexes demoOrder demoState2 \<and> indexes demoOrderRev demoState2 \<and>
   LookupConsumer demoState2 ''ns1'' ''keyAuth'' ''abc'' = (Some 0, True) \<and>
   LookupConsumer demoState2Rev ''ns1'' ''keyAuth'' ''abc'' = (Some 0, True)"
proof -
  have v1: "visits demoEnv demoOrder demoSnapshot" by (rule demoOrder_visits)
  have v2: "visits demoEnv demoOrderRev demoSnapshot"
    unfolding demoOrderRev_def by (simp add: demoOrder_visits)
  have u1: "updateConsumers demoEnv demoOrder demoSnapshot initialState = Normal demoState"
    by (simp add: demoState_def demo_defs model_defs Let_def)
  have u2: "updateConsumers demoEnv demoOrderRev demoSnapshot demoState = Normal demoStateRev"
    by (simp add: demoStateRev_def demoOrderRev_def demoState_def demo_defs model_defs Let_def)
  have bob: "riLookup demoState ''ns1'' ''bob'' = Some 1"
    by (simp add: riLookup_def demoState_def demo_defs model_defs Let_def)
  have v3: "visits demoEnv demoOrder demoSnapshot2" by (rule demoOrder_visits2)
  have v4: "visits demoEnv demoOrderRev demoSnapshot2"
    unfolding demoOrderRev_def by (simp add: demoOrder_visits2)
  have u3: "updateConsumers demoEnv demoOrder demoSnapshot2 demoState = Normal demoState2"
    by (simp add: demoState2_def demoSnapshot2_def demoState_def demo_defs model_defs Let_def)
  have u4: "updateConsumers demoEnv demoOrderRev demoSnapshot2 demoState2 = Normal demoState2Rev"
    by (simp add: demoState2Rev_def updateConsumers_def split: outcome.splits)
       (simp add: demoOrderRev_def demoState2_def demoSnapshot2_def demoState_def demo_defs
          model_defs Let_def)
  have l: "LookupConsumer demoState2 ''ns1'' ''keyAuth'' ''abc'' = (Some 0, True)"
    by (simp add: demoState2_def demoSnapshot2_def demoState_def demo_defs model_defs Let_def)
  note first = second_update_reuses_consumers[OF wf_state_initialState v1 v2 u1 u2]
  note second = second_update_reuses_consumers[OF demoState_wf v3 v4 u3 u4]
  from second demoState2_collisionFree demoState2_indexes
  have "LookupConsumer demoState2Rev ''ns1'' ''keyAuth'' ''abc''
          = LookupConsumer demoState2 ''ns1'' ''keyAuth'' ''abc''" by blast
  with l have l': "LookupConsumer demoState2Rev ''ns1'' ''keyAuth'' ''abc'' = (Some 0, True)" by simp
  from first have a: "resourceIndex demoStateRev = resourceIndex demoState"
    "heap demoStateRev = heap demoState" "nextAddr demoStateRev = nextAddr demoState" by simp_all
  from wf_state_initialState v1 v2 u1 u2 a bob demoState_wf v3 v4 u3 u4 demoState2_collisionFree
    demoState2_indexes l l'
  show ?thesis by (simp only: simp_thms)
qed

end
